theory Spec2Isabelle
  imports Main "HOL-Library.Signed_Division"
begin

section \<open>smallsh: a shallow embedding of the parser, the launcher and the signal handlers\<close>

text \<open>
  C strings are modelled as \<^typ>\<open>string\<close> values: the bytes before the terminating NUL.
  A pointer into a buffer (\<^verbatim>\<open>&command_string[k]\<close>) is the suffix of the string that
  starts at index \<open>k\<close>, and a NUL written into the buffer cuts the string that is read
  from an earlier pointer.

  The working buffer \<^verbatim>\<open>command_string[MAX_INPUT_CHARS_SIZE]\<close> has its capacity: an
  expansion that does not fit, with its terminator, is written past the end of the array,
  and the parser's result is then the fault \<open>Buffer_overflow\<close>. A file name is copied into
  a block from \<^verbatim>\<open>calloc\<close>, and the model keeps the size of the block beside the string
  that \<^verbatim>\<open>strcpy\<close> has copied into it. The failure of an allocation is not represented.
\<close>

subsection \<open>config.h\<close>

definition MAX_INPUT_CHARS_SIZE :: nat where
  "MAX_INPUT_CHARS_SIZE = 2050"

definition MAX_ARGV_SIZE :: nat where
  "MAX_ARGV_SIZE = 514"

subsection \<open>parsers.h: the command struct\<close>

text \<open>
  A string in a block from the heap: \<^verbatim>\<open>p = calloc(block_size, sizeof(char))\<close> followed by
  \<^verbatim>\<open>strcpy(p, chars)\<close>. \<^verbatim>\<open>strcpy\<close> writes the bytes of the string and the terminator, so
  it writes past the end of the block when the block is not longer than the string.
\<close>

record heap_string =
  block_size :: nat
  chars :: string

definition overrun :: "heap_string \<Rightarrow> bool" where
  "overrun h = (block_size h < length (chars h) + 1)"

text \<open>
  The elements of \<open>argv\<close> are copied into blocks of \<^verbatim>\<open>strlen(arg_token) + 1\<close> bytes, which
  hold them with their terminators: they are plain strings here. The two paths are
  copied into blocks of another size (see \<^verbatim>\<open>parse_command\<close>) and keep it.
\<close>

record command =
  argv :: "string list"
  background :: bool
  i_stream :: "heap_string option"
  o_stream :: "heap_string option"

text \<open>\<^verbatim>\<open>create_command_struct\<close>: no arguments yet, foreground, both streams unset.\<close>

definition create_command_struct :: command where
  "create_command_struct =
     \<lparr>argv = [], background = False, i_stream = None, o_stream = None\<rparr>"

subsection \<open>Reading a C string\<close>

text \<open>
  \<open>peek s\<close> is the byte under a pointer whose remaining string is \<open>s\<close>: the terminator
  once the string is used up.
\<close>

fun peek :: "string \<Rightarrow> char" where
  "peek [] = CHR 0x00"
| "peek (c # _) = c"

subsection \<open>parsers.c: \<^verbatim>\<open>truncate_right\<close>\<close>

text \<open>
  The loop steps \<open>len\<close> down while the byte before it is a space or a newline, writing a
  NUL over each; the function returns the new length, and the string left in the buffer is
  the first \<open>truncate_right s len\<close> bytes of \<open>s\<close>.
\<close>

fun truncate_right :: "string \<Rightarrow> nat \<Rightarrow> nat" where
  "truncate_right s 0 = 0"
| "truncate_right s (Suc n) =
     (if s ! n = CHR '' '' \<or> s ! n = CHR 0x0A then truncate_right s n else Suc n)"

subsection \<open>parsers.c: \<^verbatim>\<open>parse_args\<close>\<close>

text \<open>
  \<^verbatim>\<open>strtok_r\<close> with the delimiter \<^verbatim>\<open>" "\<close> (C library): skip the leading delimiters; at
  the end of the string there is no token (NULL); otherwise the token runs to the next
  delimiter, and the saved pointer is just behind that delimiter.
\<close>

definition strtok_r :: "string \<Rightarrow> (string \<times> string) option" where
  "strtok_r s =
     (let s1 = dropWhile (\<lambda>c. c = CHR '' '') s
      in if s1 = [] then None
         else Some (takeWhile (\<lambda>c. c \<noteq> CHR '' '') s1,
                    drop 1 (dropWhile (\<lambda>c. c \<noteq> CHR '' '') s1)))"

text \<open>
  The do-while loop: store the token at index \<open>i\<close>, fetch the next one, and go on while
  there is one and \<open>i < MAX_ARGV_SIZE\<close>.
\<close>

function parse_args_loop :: "nat \<Rightarrow> string \<Rightarrow> string \<Rightarrow> string list" where
  "parse_args_loop i arg_token save_ptr =
     arg_token #
       (case strtok_r save_ptr of
          None \<Rightarrow> []
        | Some (next_token, save_ptr') \<Rightarrow>
            if Suc i < MAX_ARGV_SIZE then parse_args_loop (Suc i) next_token save_ptr'
            else [])"
  by pat_completeness auto
termination
  by (relation "measure (\<lambda>(i, t, s). MAX_ARGV_SIZE - i)") auto

declare parse_args_loop.simps [simp del]

datatype fault = Null_dereference | Buffer_overflow

text \<open>
  The first \<^verbatim>\<open>strtok_r\<close> is not checked: with no token at all the loop body calls
  \<^verbatim>\<open>strlen(NULL)\<close>.
\<close>

definition parse_args :: "string \<Rightarrow> fault + string list" where
  "parse_args argv_string =
     (case strtok_r argv_string of
        None \<Rightarrow> Inl Null_dereference
      | Some (arg_token, save_ptr) \<Rightarrow> Inr (parse_args_loop 0 arg_token save_ptr))"

subsection \<open>parsers.c: \<^verbatim>\<open>expand\<close>\<close>

text \<open>\<^verbatim>\<open>sprintf(pid_as_str, "%d", getpid())\<close>: the decimal numeral of an \<^verbatim>\<open>int\<close>.\<close>

definition digit_char :: "nat \<Rightarrow> char" where
  "digit_char d = ''0123456789'' ! (d mod 10)"

fun decimal :: "nat \<Rightarrow> string" where
  "decimal n = (if n < 10 then [digit_char n] else decimal (n div 10) @ [digit_char (n mod 10)])"

declare decimal.simps [simp del]

definition sprintf_d :: "int \<Rightarrow> string" where
  "sprintf_d v = (if v < 0 then CHR ''-'' # decimal (nat (- v)) else decimal (nat v))"

text \<open>The bytes that the inner copy loop moves: neither space, nor \<open>$\<close>, nor the terminator.\<close>

definition plain :: "char \<Rightarrow> bool" where
  "plain c = (c \<noteq> CHR '' '' \<and> c \<noteq> CHR ''$'' \<and> c \<noteq> CHR 0x00)"

text \<open>
  One round of the outer loop, from the input that is left: the bytes it writes and the
  input it leaves. It skips spaces, copies plain bytes, then writes the process id for
  \<open>$$\<close> or a lone \<open>$\<close>, then one space if a space follows.
\<close>

definition expand_round :: "string \<Rightarrow> string \<Rightarrow> string \<times> string" where
  "expand_round pid_as_str inp =
     (let inp1 = dropWhile (\<lambda>c. c = CHR '' '') inp;
          word = takeWhile plain inp1;
          inp2 = dropWhile plain inp1;
          (out2, inp3) =
            (if peek inp2 = CHR ''$'' \<and> peek (tl inp2) = CHR ''$'' then (pid_as_str, drop 2 inp2)
             else if peek inp2 = CHR ''$'' then ([CHR ''$''], tl inp2)
             else ([], inp2));
          (out3, inp4) =
            (if peek inp3 = CHR '' '' then ([CHR '' ''], tl inp3) else ([], inp3))
      in (word @ out2 @ out3, inp4))"

lemma expand_round_shorter:
  assumes "peek inp \<noteq> CHR 0x00"
  shows "length (snd (expand_round p inp)) < length inp"
proof (cases inp)
  case Nil
  with assms show ?thesis by simp
next
  case (Cons c cs)
  with assms have c0: "c \<noteq> CHR 0x00" by simp
  let ?i1 = "dropWhile (\<lambda>c. c = CHR '' '') inp"
  let ?i2 = "dropWhile plain ?i1"
  have l1: "length ?i1 \<le> length inp" by (rule length_dropWhile_le)
  have l2: "length ?i2 \<le> length ?i1" by (rule length_dropWhile_le)
  show ?thesis
  proof (cases "c = CHR '' ''")
    case True
    then have "length ?i1 < length inp"
      using Cons length_dropWhile_le [of "\<lambda>c. c = CHR '' ''" cs] by simp
    with l2 show ?thesis
      by (auto simp: expand_round_def Let_def split: if_splits)
  next
    case notsp: False
    show ?thesis
    proof (cases "c = CHR ''$''")
      case True
      then have "?i2 = inp" using Cons by (simp add: plain_def)
      then show ?thesis using Cons True
        by (auto simp: expand_round_def Let_def plain_def split: if_splits)
    next
      case False
      with notsp c0 have "plain c" by (simp add: plain_def)
      then have "length ?i2 < length inp"
        using Cons notsp length_dropWhile_le [of plain cs] by simp
      then show ?thesis
        by (auto simp: expand_round_def Let_def split: if_splits)
    qed
  qed
qed

lemma expand_round_rest:
  "peek inp \<noteq> CHR 0x00 \<Longrightarrow> (out, rest) = expand_round p inp \<Longrightarrow> length rest < length inp"
  using expand_round_shorter [of inp p] by (cases "expand_round p inp") auto

function expand_loop :: "string \<Rightarrow> string \<Rightarrow> string" where
  "expand_loop pid_as_str inp =
     (if peek inp = CHR 0x00 then []
      else case expand_round pid_as_str inp of
             (out, rest) \<Rightarrow> out @ expand_loop pid_as_str rest)"
  by pat_completeness auto
termination
  by (relation "measure (\<lambda>(p, inp). length inp)") (auto intro: expand_round_rest)

declare expand_loop.simps [simp del]

definition expand :: "int \<Rightarrow> string \<Rightarrow> string" where
  "expand pid input_string = expand_loop (sprintf_d pid) input_string"

subsection \<open>parsers.c: \<^verbatim>\<open>parse_command\<close>\<close>

text \<open>
  \<^verbatim>\<open>strncmp(p, " > ", 3) != 0 && strncmp(p, " < ", 3) != 0\<close> is the negation of
  \<open>at_redirect\<close> of the string under \<open>p\<close>: a string shorter than three bytes differs from
  both operators at its terminator.
\<close>

definition at_redirect :: "string \<Rightarrow> bool" where
  "at_redirect s = (take 3 s = '' > '' \<or> take 3 s = '' < '')"

text \<open>
  The scanning loop of steps (3) and (4): \<^verbatim>\<open>while (k < right && ...) k++\<close>. The string
  under \<open>k\<close> runs to \<open>right\<close>, so \<open>k < right\<close> holds while at least two bytes are left. The
  result is the part stepped over and the string under the final \<open>k\<close>.
\<close>

fun find_redirect :: "string \<Rightarrow> string \<times> string" where
  "find_redirect (c # d # cs) =
     (if at_redirect (c # d # cs) then ([], c # d # cs)
      else case find_redirect (d # cs) of (a, b) \<Rightarrow> (c # a, b))"
| "find_redirect cs = ([], cs)"

text \<open>\<^verbatim>\<open>while (command_string[left] == ' ' && left < right) left++\<close>\<close>

fun skip_spaces :: "string \<Rightarrow> string" where
  "skip_spaces (c # d # cs) = (if c = CHR '' '' then skip_spaces (d # cs) else c # d # cs)"
| "skip_spaces cs = cs"

text \<open>
  The span of a file name in step (4), from the string under \<open>left\<close> (which runs to
  \<open>right\<close> and starts with the operator): step over the operator, skip spaces, scan to
  \<open>filename_end\<close>. The result is the bytes from \<open>left\<close> to \<open>filename_end\<close>, both included
  (\<open>filename_end - left + 1\<close> of them), and the string under the next \<open>left\<close>, one byte
  behind \<open>filename_end\<close>.
\<close>

definition filename_span :: "string \<Rightarrow> string \<times> string" where
  "filename_span s =
     (let s1 = skip_spaces (tl s);
          (name, rest) = find_redirect s1
      in (name @ take 1 rest, drop 1 rest))"

text \<open>
  One round of the redirection loop: which stream the operator names, the file name if
  \<^verbatim>\<open>truncate_right\<close> leaves more than nothing of the span, and the string under the next
  \<open>left\<close>. The block for the file name has \<open>filename_end - left + 1\<close> bytes, the length of
  the span, and the string copied into it is what \<^verbatim>\<open>truncate_right\<close> has left of the
  span: when nothing was trimmed, the string is as long as the block.
\<close>

definition redirect_round :: "string \<Rightarrow> bool \<times> heap_string option \<times> string" where
  "redirect_round s =
     (let redirect_input = (peek s = CHR ''<'');
          (span, next) = filename_span s;
          n = truncate_right span (length span)
      in (redirect_input,
          if n > 0 then Some \<lparr>block_size = length span, chars = take n span\<rparr> else None,
          next))"

lemma find_redirect_length:
  "length (fst (find_redirect s)) + length (snd (find_redirect s)) = length s"
  by (induction s rule: find_redirect.induct) (auto split: prod.splits)

lemma skip_spaces_length: "length (skip_spaces s) \<le> length s"
  by (induction s rule: skip_spaces.induct) auto

lemma redirect_round_rest:
  assumes "\<not> length s \<le> Suc 0" and "(ri, fname, rest) = redirect_round s"
  shows "length rest < length s"
proof -
  have "length (snd (find_redirect (skip_spaces (tl s)))) \<le> length (skip_spaces (tl s))"
    using find_redirect_length [of "skip_spaces (tl s)"] by simp
  also have "\<dots> \<le> length (tl s)" by (rule skip_spaces_length)
  finally have "length (snd (find_redirect (skip_spaces (tl s)))) < length s"
    using assms(1) by simp
  then show ?thesis
    using assms(2)
    by (auto simp: redirect_round_def filename_span_def Let_def split: prod.splits)
qed

function redirect_loop :: "string \<Rightarrow> command \<Rightarrow> command" where
  "redirect_loop s parsed_command =
     (if length s \<le> 1 then parsed_command
      else case redirect_round s of
        (redirect_input, fname, rest) \<Rightarrow>
          redirect_loop rest
            (case fname of
               None \<Rightarrow> parsed_command
             | Some f \<Rightarrow>
                 if redirect_input then parsed_command\<lparr>i_stream := Some f\<rparr>
                 else parsed_command\<lparr>o_stream := Some f\<rparr>))"
  by pat_completeness auto
termination
  by (relation "measure (\<lambda>(s, c). length s)") (auto intro: redirect_round_rest)

declare redirect_loop.simps [simp del]

text \<open>
  Step (2): the line ends in \<open>&\<close>, with \<open>right > left + 1\<close> and a space before it
  (\<open>left = 0\<close>, \<open>right = len - 1\<close>).
\<close>

definition background_requested :: "string \<Rightarrow> bool" where
  "background_requested cs =
     (let right = length cs - 1
      in cs ! right = CHR ''&'' \<and> right > 0 + 1 \<and> cs ! (right - 1) = CHR '' '')"

text \<open>
  Steps (3) and (4) on the string between \<open>left = 0\<close> and \<open>right\<close>: find the end of the
  argument string, cut it there if the byte is a space, split it into \<open>argv\<close>, then read
  the redirections from the string under \<open>argv_right\<close>.
\<close>

definition parse_operands :: "string \<Rightarrow> command \<Rightarrow> fault + command" where
  "parse_operands cs parsed_command =
     (let (before, at) = find_redirect cs;
          (argv_string, rest) =
             (if peek at = CHR '' '' then (before, tl at) else (before @ at, at))
      in case parse_args argv_string of
           Inl f \<Rightarrow> Inl f
         | Inr args \<Rightarrow> Inr (redirect_loop rest (parsed_command\<lparr>argv := args\<rparr>)))"

text \<open>
  \<^verbatim>\<open>parse_command\<close>. \<^verbatim>\<open>expand\<close> writes the expansion and its terminator into
  \<^verbatim>\<open>command_string\<close>, an array of \<open>MAX_INPUT_CHARS_SIZE\<close> bytes, without a bound: an
  expansion of \<open>MAX_INPUT_CHARS_SIZE\<close> bytes or more overruns the array. Otherwise there is
  no descriptor (NULL) for an empty line and for a comment, and with the background
  operator the string is cut before the space that precedes \<open>&\<close>.
\<close>

definition parse_command :: "int \<Rightarrow> string \<Rightarrow> fault + command option" where
  "parse_command pid input_string =
     (let expanded = expand pid input_string;
          len = truncate_right expanded (length expanded);
          command_string = take len expanded
      in if MAX_INPUT_CHARS_SIZE \<le> length expanded then Inl Buffer_overflow
         else if len = 0 then Inr None
         else if command_string ! 0 = CHR ''#'' then Inr None
         else
           case (if background_requested command_string
                 then parse_operands (take (len - 2) command_string)
                        (create_command_struct\<lparr>background := True\<rparr>)
                 else parse_operands command_string create_command_struct)
           of Inl f \<Rightarrow> Inl f
            | Inr parsed_command \<Rightarrow> Inr (Some parsed_command))"
section \<open>The process: signals, commands and the control loop\<close>

text \<open>
  The interpreter is one process, modelled by its state; what the operating system
  answers to its calls is a parameter. A handler runs to its end before anything else
  happens (\<^verbatim>\<open>sa_mask\<close> is filled), so the delivery of a signal is one step on the state.
\<close>

subsection \<open>State\<close>

datatype signal = SIGTSTP | SIGCHLD | SIGINT | SIGTERM

datatype handler =
    SIG_DFL
  | SIG_IGN
  | SIGTSTP_handler_normal_mode
  | SIGTSTP_handler_foreground_only_mode
  | SIGCHLD_handler
  | SIGCHLD_handler_no_output

text \<open>How the process stopped running this program, if it did.\<close>

datatype halt =
    Exited int
  | Killed signal
  | Stopped signal
  | Replaced "string list"
  | Faulted fault

text \<open>Calls whose effect lies outside the process; the state keeps them in order.\<close>

datatype syscall = Kill_group signal | Usleep nat | Setsid

text \<open>A child as \<^verbatim>\<open>fork\<close> leaves it in the parent's view.\<close>

record child =
  launched_pid :: int
  launched_argv :: "string list"
  launched_stdin :: int
  launched_stdout :: int
  launched_in_background :: bool

record shell =
  foreground_flag :: int
  exit_status :: int
  by_signal :: bool
  sigaction :: "signal \<Rightarrow> handler"
  sigchld_blocked :: bool
  sigchld_pending :: bool
  zombies :: "(int \<times> int) list"
  stdout :: string
  stderr :: string
  open_fds :: "int list"
  stdin_fd :: int
  stdout_fd :: int
  children :: "child list"
  cwd :: string
  calls :: "syscall list"
  halted :: "halt option"
  input_buffer :: string
  stdin_indicator :: bool
  exit_triggered :: bool

text \<open>
  The state when \<^verbatim>\<open>main\<close> starts: the static variables have their initialisers
  (\<^verbatim>\<open>foreground_flag = 0\<close>, \<^verbatim>\<open>exit_status = 0\<close>, \<^verbatim>\<open>by_signal = false\<close>), every signal has
  its default action, and the input buffer, which is not initialised, holds whatever
  bytes it holds.
\<close>

definition initial_shell :: "string \<Rightarrow> string \<Rightarrow> shell" where
  "initial_shell dir uninitialised =
     \<lparr>foreground_flag = 0, exit_status = 0, by_signal = False,
      sigaction = (\<lambda>_. SIG_DFL), sigchld_blocked = False, sigchld_pending = False,
      zombies = [], stdout = [], stderr = [], open_fds = [], stdin_fd = 0, stdout_fd = 1,
      children = [], cwd = dir, calls = [], halted = None,
      input_buffer = uninitialised, stdin_indicator = False, exit_triggered = False\<rparr>"

subsection \<open>What the operating system answers\<close>

datatype open_flags = O_RDONLY | O_WRONLY | O_WRONLY_CREAT_TRUNC

text \<open>
  The answers during one round of the control loop: the process id, the descriptor that
  \<^verbatim>\<open>open\<close> returns (\<open>-1\<close> on failure), the return value of \<^verbatim>\<open>fork\<close>, the status that
  \<^verbatim>\<open>waitpid\<close> stores for the foreground child, whether \<^verbatim>\<open>execvp\<close> returns, the text of
  the current error, the value of \<^verbatim>\<open>HOME\<close>, and for \<^verbatim>\<open>chdir\<close> the directory that the
  process is in after a call that succeeds (no directory: the call fails).
\<close>

record os =
  os_getpid :: int
  os_open :: "string \<Rightarrow> open_flags \<Rightarrow> int"
  os_fork :: int
  os_waitpid :: int
  os_execvp_returns :: bool
  os_strerror :: string
  os_home :: "string option"
  os_chdir :: "string \<Rightarrow> string option"

definition STDIN_FILENO :: int where
  "STDIN_FILENO = 0"

definition STDOUT_FILENO :: int where
  "STDOUT_FILENO = 1"

text \<open>\<^verbatim>\<open>open\<close> and \<^verbatim>\<open>close\<close>, with the descriptors that the process holds open.\<close>

definition sys_open :: "os \<Rightarrow> string \<Rightarrow> open_flags \<Rightarrow> shell \<Rightarrow> int \<times> shell" where
  "sys_open sys path flags st =
     (let fd = os_open sys path flags
      in (fd, if fd = -1 then st else st\<lparr>open_fds := fd # open_fds st\<rparr>))"

definition sys_close :: "int \<Rightarrow> shell \<Rightarrow> shell" where
  "sys_close fd st = st\<lparr>open_fds := remove1 fd (open_fds st)\<rparr>"

text \<open>The macros of \<^verbatim>\<open><sys/wait.h>\<close> on the status word (Linux).\<close>

definition WTERMSIG :: "int \<Rightarrow> int" where
  "WTERMSIG status = status mod 128"

definition WIFEXITED :: "int \<Rightarrow> bool" where
  "WIFEXITED status = (WTERMSIG status = 0)"

definition WEXITSTATUS :: "int \<Rightarrow> int" where
  "WEXITSTATUS status = (status div 256) mod 256"

definition WIFSIGNALED :: "int \<Rightarrow> bool" where
  "WIFSIGNALED status = (WTERMSIG status \<noteq> 0 \<and> WTERMSIG status \<noteq> 127)"

text \<open>Output: \<^verbatim>\<open>write\<close> and flushed \<^verbatim>\<open>printf\<close> on standard output, \<^verbatim>\<open>fprintf\<close> on standard error.\<close>

definition put :: "string \<Rightarrow> shell \<Rightarrow> shell" where
  "put text st = st\<lparr>stdout := stdout st @ text\<rparr>"

text \<open>\<^verbatim>\<open>write(STDOUT_FILENO, buf, count)\<close>: the first \<open>count\<close> bytes of the buffer.\<close>

definition sys_write :: "string \<Rightarrow> nat \<Rightarrow> shell \<Rightarrow> shell" where
  "sys_write buf count st = put (take count buf) st"

definition put_err :: "string \<Rightarrow> shell \<Rightarrow> shell" where
  "put_err text st = st\<lparr>stderr := stderr st @ text\<rparr>"

text \<open>\<^verbatim>\<open>perror(s)\<close>: \<open>s\<close> and a colon if \<open>s\<close> is not empty, then the text of the error.\<close>

definition perror :: "os \<Rightarrow> string \<Rightarrow> shell \<Rightarrow> shell" where
  "perror sys s st =
     put_err ((if s = [] then [] else s @ '': '') @ os_strerror sys @ [CHR 0x0A]) st"

subsection \<open>error\_handlers.c\<close>

definition handle_exec_error :: "os \<Rightarrow> string \<Rightarrow> shell \<Rightarrow> shell" where
  "handle_exec_error sys command st =
     perror sys [] (put_err (''Error. Command '' @ command @ '' not found. '') st)"

definition handle_fork_error :: "os \<Rightarrow> shell \<Rightarrow> shell" where
  "handle_fork_error sys st = perror sys ''Error. fork failed'' st"

definition handle_path_error :: "shell \<Rightarrow> shell" where
  "handle_path_error st = put_err (''Error. Path not found'' @ [CHR 0x0A]) st"

definition handle_file_error :: "os \<Rightarrow> string \<Rightarrow> bool \<Rightarrow> shell \<Rightarrow> shell" where
  "handle_file_error sys file_name for_input st =
     perror sys (if for_input then ''for input'' else ''for output'')
       (put_err (''Error. Could not open file '' @ file_name @ '' '') st)"

subsection \<open>signal\_handlers.c\<close>

definition get_foreground_flag :: "shell \<Rightarrow> int" where
  "get_foreground_flag st = foreground_flag st"

text \<open>
  \<^verbatim>\<open>write_int\<close>: \<open>0\<close> for zero; otherwise a sign for a negative value, then the digits,
  which the loop produces from the right while the value is not 0. The value is an
  \<^verbatim>\<open>int\<close> of 32 bits: \<^verbatim>\<open>value = -value\<close> gives \<open>INT_MIN\<close> back for \<open>INT_MIN\<close>, and the loop
  then works on a negative value, with the quotient and the remainder of C, which
  truncate toward zero, and with bytes below \<open>'0'\<close> for its digits.
\<close>

definition INT_MIN :: int where
  "INT_MIN = - 2147483648"

definition negate :: "int \<Rightarrow> int" where
  "negate v = (if v = INT_MIN then INT_MIN else - v)"

function write_int_digits :: "int \<Rightarrow> string \<Rightarrow> string" where
  "write_int_digits v buffer =
     (if v \<noteq> 0
      then write_int_digits (v sdiv 10) (char_of (of_char (CHR ''0'') + v smod 10) # buffer)
      else buffer)"
  by pat_completeness auto
termination
proof (relation "measure (\<lambda>(v, b). nat \<bar>v\<bar>)")
  show "wf (measure (\<lambda>(v, b). nat \<bar>v\<bar>))" by simp
next
  fix v :: int and buffer :: string
  assume "v \<noteq> 0"
  then have "\<bar>v\<bar> div 10 < \<bar>v\<bar>" by simp
  then have "\<bar>v sdiv 10\<bar> < \<bar>v\<bar>"
    by (simp add: signed_divide_int_def abs_mult)
  then show "((v sdiv 10, char_of (of_char (CHR ''0'') + v smod 10) # buffer), (v, buffer))
      \<in> measure (\<lambda>(v, b). nat \<bar>v\<bar>)"
    by simp
qed

declare write_int_digits.simps [simp del]

definition write_int :: "int \<Rightarrow> shell \<Rightarrow> shell" where
  "write_int v st =
     (if v = 0 then sys_write ''0'' 1 st
      else let st1 = (if v < 0 then sys_write ''-'' 1 st else st);
               v1 = (if v < 0 then negate v else v);
               digits = write_int_digits v1 []
           in sys_write digits (length digits) st1)"

text \<open>
  The loop of \<^verbatim>\<open>SIGCHLD_handler\<close> over the children that have terminated and are not
  waited for yet: \<^verbatim>\<open>waitpid(-1, &status, WNOHANG)\<close> takes them one by one, and the
  loop goes on while the process id it returns is positive.
\<close>

definition report_child :: "int \<Rightarrow> int \<Rightarrow> shell \<Rightarrow> shell" where
  "report_child child_pid child_exit_status st =
     (let st1 = sys_write '' is done: '' 10
                  (write_int child_pid (sys_write ''Background PID '' 15 st));
          st2 = (if WIFEXITED child_exit_status
                 then write_int (WEXITSTATUS child_exit_status)
                        (sys_write ''exit value '' 11 st1)
                 else if WIFSIGNALED child_exit_status
                 then write_int (WTERMSIG child_exit_status)
                        (sys_write ''terminated by signal '' 21 st1)
                 else st1)
      in sys_write [CHR 0x0A] 1 st2)"

fun reap :: "bool \<Rightarrow> (int \<times> int) list \<Rightarrow> shell \<Rightarrow> shell" where
  "reap output [] st = st\<lparr>zombies := []\<rparr>"
| "reap output ((child_pid, child_exit_status) # rest) st =
     (if 0 < child_pid
      then reap output rest (if output then report_child child_pid child_exit_status st else st)
      else st\<lparr>zombies := rest\<rparr>)"

definition SIGCHLD_handler_body :: "shell \<Rightarrow> shell" where
  "SIGCHLD_handler_body st = reap True (zombies st) st"

definition SIGCHLD_handler_no_output_body :: "shell \<Rightarrow> shell" where
  "SIGCHLD_handler_no_output_body st = reap False (zombies st) st"

definition set_SIGTSTP_handler :: "int \<Rightarrow> shell \<Rightarrow> shell" where
  "set_SIGTSTP_handler mode st =
     st\<lparr>sigaction := (sigaction st)
           (SIGTSTP := if mode = 0 then SIGTSTP_handler_normal_mode
                       else SIGTSTP_handler_foreground_only_mode)\<rparr>"

definition enter_message :: string where
  "enter_message =
     CHR 0x0A # ''Entering foreground-only mode (& is now ignored)'' @ CHR 0x0A # '': ''"

definition exit_message :: string where
  "exit_message = CHR 0x0A # ''Exiting foreground-only mode'' @ CHR 0x0A # '': ''"

definition SIGTSTP_handler_normal_mode_body :: "shell \<Rightarrow> shell" where
  "SIGTSTP_handler_normal_mode_body st =
     set_SIGTSTP_handler 1 ((sys_write enter_message 52 st)\<lparr>foreground_flag := 1\<rparr>)"

definition SIGTSTP_handler_foreground_only_mode_body :: "shell \<Rightarrow> shell" where
  "SIGTSTP_handler_foreground_only_mode_body st =
     set_SIGTSTP_handler 0 ((sys_write exit_message 32 st)\<lparr>foreground_flag := 0\<rparr>)"

definition set_initial_signal_handlers :: "shell \<Rightarrow> shell" where
  "set_initial_signal_handlers st =
     (let st1 = set_SIGTSTP_handler 0 st
      in st1\<lparr>sigaction := (sigaction st1)(SIGCHLD := SIGCHLD_handler, SIGINT := SIG_IGN)\<rparr>)"

definition set_child_signal_handlers :: "bool \<Rightarrow> shell \<Rightarrow> shell" where
  "set_child_signal_handlers background_mode st =
     st\<lparr>sigaction := (sigaction st)
           (SIGTSTP := SIG_IGN,
            SIGINT := (if background_mode then SIG_IGN else SIG_DFL),
            SIGCHLD := SIG_DFL)\<rparr>"

definition set_cleanup_signal_handlers :: "shell \<Rightarrow> shell" where
  "set_cleanup_signal_handlers st =
     st\<lparr>sigaction := (sigaction st)
           (SIGCHLD := SIGCHLD_handler_no_output, SIGTERM := SIG_IGN)\<rparr>"

text \<open>
  The delivery of a signal to the process. A process that has halted receives nothing. A
  blocked \<^verbatim>\<open>SIGCHLD\<close> stays pending. Otherwise the action registered for the signal
  runs: the default action terminates the process (\<^verbatim>\<open>SIGINT\<close>, \<^verbatim>\<open>SIGTERM\<close>), stops it
  (\<^verbatim>\<open>SIGTSTP\<close>) or does nothing (\<^verbatim>\<open>SIGCHLD\<close>).
\<close>

definition run_handler :: "signal \<Rightarrow> shell \<Rightarrow> shell" where
  "run_handler sig st =
     (case sigaction st sig of
        SIG_IGN \<Rightarrow> st
      | SIG_DFL \<Rightarrow>
          (case sig of
             SIGCHLD \<Rightarrow> st
           | SIGTSTP \<Rightarrow> st\<lparr>halted := Some (Stopped sig)\<rparr>
           | SIGINT \<Rightarrow> st\<lparr>halted := Some (Killed sig)\<rparr>
           | SIGTERM \<Rightarrow> st\<lparr>halted := Some (Killed sig)\<rparr>)
      | SIGTSTP_handler_normal_mode \<Rightarrow> SIGTSTP_handler_normal_mode_body st
      | SIGTSTP_handler_foreground_only_mode \<Rightarrow> SIGTSTP_handler_foreground_only_mode_body st
      | SIGCHLD_handler \<Rightarrow> SIGCHLD_handler_body st
      | SIGCHLD_handler_no_output \<Rightarrow> SIGCHLD_handler_no_output_body st)"

definition deliver :: "signal \<Rightarrow> shell \<Rightarrow> shell" where
  "deliver sig st =
     (if halted st \<noteq> None then st
      else if sig = SIGCHLD \<and> sigchld_blocked st then st\<lparr>sigchld_pending := True\<rparr>
      else run_handler sig st)"

text \<open>\<^verbatim>\<open>sigprocmask\<close> on the set that holds \<^verbatim>\<open>SIGCHLD\<close>; unblocking delivers a pending signal.\<close>

definition sigprocmask_block :: "shell \<Rightarrow> shell" where
  "sigprocmask_block st = st\<lparr>sigchld_blocked := True\<rparr>"

definition sigprocmask_unblock :: "shell \<Rightarrow> shell" where
  "sigprocmask_unblock st =
     (let st1 = st\<lparr>sigchld_blocked := False, sigchld_pending := False\<rparr>
      in if sigchld_pending st \<and> halted st = None then run_handler SIGCHLD st1 else st1)"

text \<open>A child terminates: it waits to be reaped, and \<^verbatim>\<open>SIGCHLD\<close> is sent.\<close>

definition child_terminates :: "int \<Rightarrow> int \<Rightarrow> shell \<Rightarrow> shell" where
  "child_terminates pid status st = deliver SIGCHLD (st\<lparr>zombies := zombies st @ [(pid, status)]\<rparr>)"

text \<open>
  \<^verbatim>\<open>kill(0, sig)\<close> sends the signal to every process of the caller's process group, the
  caller among them; \<^verbatim>\<open>usleep\<close> and \<^verbatim>\<open>setsid\<close> are noted; \<^verbatim>\<open>exit\<close> ends the process.
\<close>

definition kill_group :: "signal \<Rightarrow> shell \<Rightarrow> shell" where
  "kill_group sig st = deliver sig (st\<lparr>calls := calls st @ [Kill_group sig]\<rparr>)"

definition usleep :: "nat \<Rightarrow> shell \<Rightarrow> shell" where
  "usleep usec st = st\<lparr>calls := calls st @ [Usleep usec]\<rparr>"

definition setsid :: "shell \<Rightarrow> shell" where
  "setsid st = st\<lparr>calls := calls st @ [Setsid]\<rparr>"

definition exit_process :: "int \<Rightarrow> shell \<Rightarrow> shell" where
  "exit_process code st = st\<lparr>halted := Some (Exited code)\<rparr>"

subsection \<open>commands.c\<close>

text \<open>
  \<^verbatim>\<open>builtin_exit\<close>: the cleanup handlers, the broadcast, the pause, the exit. A process that
  the broadcast has killed goes no further.
\<close>

definition builtin_exit :: "shell \<Rightarrow> shell" where
  "builtin_exit st =
     (let st1 = set_cleanup_signal_handlers st;
          st2 = kill_group SIGTERM st1
      in if halted st2 \<noteq> None then st2
         else exit_process 0 (usleep 5000 st2))"

definition builtin_cd :: "os \<Rightarrow> string list \<Rightarrow> shell \<Rightarrow> shell" where
  "builtin_cd sys args st =
     (case (case drop 1 args of [] \<Rightarrow> os_home sys | dir # _ \<Rightarrow> Some dir) of
        None \<Rightarrow> handle_path_error st
      | Some dir \<Rightarrow>
          (case os_chdir sys dir of
             None \<Rightarrow> handle_path_error st
           | Some directory \<Rightarrow> st\<lparr>cwd := directory\<rparr>))"

definition builtin_status :: "shell \<Rightarrow> shell" where
  "builtin_status st =
     put (''Last foreground process status: '' @
          (if by_signal st then ''terminated by signal'' else ''exit value'') @ '' '' @
          sprintf_d (exit_status st) @ [CHR 0x0A]) st"

text \<open>
  \<^verbatim>\<open>run_command\<close>, in the order of the source: the input stream, the output stream,
  \<^verbatim>\<open>fork\<close>, then the child's branch or the parent's.

  The input is the named file, or \<^verbatim>\<open>/dev/null\<close> in the background, or the standard
  input, which is not opened.
\<close>

definition open_input :: "os \<Rightarrow> string option \<Rightarrow> bool \<Rightarrow> shell \<Rightarrow> int \<times> shell" where
  "open_input sys input_file in_background st =
     (case input_file of
        None \<Rightarrow> if in_background then sys_open sys ''/dev/null'' O_RDONLY st
                else (STDIN_FILENO, st)
      | Some f \<Rightarrow> sys_open sys f O_RDONLY st)"

definition open_output :: "os \<Rightarrow> string option \<Rightarrow> bool \<Rightarrow> shell \<Rightarrow> int \<times> shell" where
  "open_output sys output_file in_background st =
     (case output_file of
        None \<Rightarrow> if in_background then sys_open sys ''/dev/null'' O_WRONLY st
                else (STDOUT_FILENO, st)
      | Some f \<Rightarrow> sys_open sys f O_WRONLY_CREAT_TRUNC st)"

text \<open>
  The child (\<open>pid = 0\<close>) works on its copy of the state: the child's signal handlers, the
  two streams bound to its standard input and output, then \<^verbatim>\<open>execvp\<close>. If that returns,
  the error is reported and the child exits with status 1.
\<close>

definition child_branch :: "os \<Rightarrow> string list \<Rightarrow> int \<Rightarrow> int \<Rightarrow> bool \<Rightarrow> shell \<Rightarrow> shell" where
  "child_branch sys args input_fd output_fd in_background st =
     (let st1 = (set_child_signal_handlers in_background st)
                  \<lparr>stdin_fd := input_fd, stdout_fd := output_fd\<rparr>
      in if os_execvp_returns sys
         then exit_process 1
                (handle_exec_error sys (case args of [] \<Rightarrow> ''(null)'' | name # _ \<Rightarrow> name) st1)
         else st1\<lparr>halted := Some (Replaced args)\<rparr>)"

text \<open>
  The parent has a new child. In the background it prints the child's process id and
  returns. In the foreground it waits, stores the status, and decodes it: an exit value,
  or else a signal number, printed at once in the format of \<^verbatim>\<open>status\<close>.
\<close>

definition parent_branch ::
  "os \<Rightarrow> int \<Rightarrow> string list \<Rightarrow> int \<Rightarrow> int \<Rightarrow> bool \<Rightarrow> shell \<Rightarrow> shell" where
  "parent_branch sys pid args input_fd output_fd in_background st =
     (let st1 = st\<lparr>children := children st @
                   [\<lparr>launched_pid = pid, launched_argv = args, launched_stdin = input_fd,
                     launched_stdout = output_fd, launched_in_background = in_background\<rparr>]\<rparr>
      in if in_background
         then put (''Background PID '' @ sprintf_d pid @ [CHR 0x0A]) st1
         else
           let st2 = st1\<lparr>exit_status := os_waitpid sys\<rparr>
           in if WIFEXITED (exit_status st2)
              then st2\<lparr>by_signal := False, exit_status := WEXITSTATUS (exit_status st2)\<rparr>
              else builtin_status
                     (put [CHR 0x0A]
                        (st2\<lparr>by_signal := True,
                             exit_status := WTERMSIG (exit_status st2)\<rparr>)))"

definition run_command ::
  "os \<Rightarrow> string list \<Rightarrow> string option \<Rightarrow> string option \<Rightarrow> bool \<Rightarrow> shell \<Rightarrow> shell" where
  "run_command sys args input_file output_file in_background st =
     (let (input_fd, st1) = open_input sys input_file in_background st
      in if input_fd = -1
         then (handle_file_error sys
                 (case input_file of None \<Rightarrow> ''/dev/null'' | Some f \<Rightarrow> f) True st1)
                \<lparr>exit_status := 1\<rparr>
         else
           let (output_fd, st2) = open_output sys output_file in_background st1
           in if output_fd = -1
              then
                let st3 = (if input_fd \<noteq> STDIN_FILENO then sys_close input_fd st2 else st2)
                in (handle_file_error sys
                      (case output_file of None \<Rightarrow> ''/dev/null'' | Some f \<Rightarrow> f) False st3)
                     \<lparr>exit_status := 1\<rparr>
              else
                let pid = os_fork sys
                in if pid = -1 then handle_fork_error sys st2
                   else if pid = 0
                   then child_branch sys args input_fd output_fd in_background st2
                   else parent_branch sys pid args input_fd output_fd in_background st2)"

subsection \<open>main.c\<close>

text \<open>\<^verbatim>\<open>setup\<close>\<close>

definition setup_shell :: "shell \<Rightarrow> shell" where
  "setup_shell st = setsid (set_initial_signal_handlers st)"

text \<open>
  The dispatch of a descriptor: \<^verbatim>\<open>exit\<close> sets the loop's flag, \<^verbatim>\<open>cd\<close> and \<^verbatim>\<open>status\<close> are
  built in, everything else is run, in the background only if the descriptor asks for it
  and \<^verbatim>\<open>get_foreground_flag() != 1\<close>. The launcher reads each path from its block as the
  string that was copied there.
\<close>

definition dispatch :: "os \<Rightarrow> command \<Rightarrow> shell \<Rightarrow> shell" where
  "dispatch sys parsed_command st =
     (case argv parsed_command of
        [] \<Rightarrow> st\<lparr>halted := Some (Faulted Null_dereference)\<rparr>
      | name # _ \<Rightarrow>
          if name = ''exit'' then st\<lparr>exit_triggered := True\<rparr>
          else if name = ''cd'' then builtin_cd sys (argv parsed_command) st
          else if name = ''status'' then builtin_status st
          else run_command sys (argv parsed_command)
                 (map_option chars (i_stream parsed_command))
                 (map_option chars (o_stream parsed_command))
                 (background parsed_command \<and> get_foreground_flag st \<noteq> 1) st)"

text \<open>
  Reading the next line: \<^verbatim>\<open>fgets\<close> either stores a line in the buffer or returns NULL,
  at the end of the input or on an error, with the stream's indicator set and the buffer
  as it was; \<^verbatim>\<open>clearerr\<close> then clears the indicator.
\<close>

definition read_line :: "string option \<Rightarrow> shell \<Rightarrow> shell" where
  "read_line line st =
     (case line of
        Some l \<Rightarrow> st\<lparr>input_buffer := l\<rparr>
      | None \<Rightarrow> (st\<lparr>stdin_indicator := True\<rparr>)\<lparr>stdin_indicator := False\<rparr>)"

text \<open>
  One round of the loop: block \<^verbatim>\<open>SIGCHLD\<close>, prompt, read, parse the buffer whether or not
  a line was read, dispatch, unblock, pause.
\<close>

definition main_iteration :: "os \<Rightarrow> string option \<Rightarrow> shell \<Rightarrow> shell" where
  "main_iteration sys line st =
     (let st1 = put '': '' (sigprocmask_block st);
          st2 = read_line line st1;
          st3 = (case parse_command (os_getpid sys) (input_buffer st2) of
                   Inl f \<Rightarrow> st2\<lparr>halted := Some (Faulted f)\<rparr>
                 | Inr None \<Rightarrow> st2
                 | Inr (Some parsed_command) \<Rightarrow> dispatch sys parsed_command st2)
      in if halted st3 \<noteq> None then st3
         else usleep 5000 (sigprocmask_unblock st3))"

text \<open>
  The loop \<^verbatim>\<open>while (!exit_triggered)\<close> over the answers of the operating system, one
  pair for each round. The result is the state in which the loop has ended, or \<open>None\<close>
  if it is still running when the answers are used up.
\<close>

fun main_loop :: "(os \<times> string option) list \<Rightarrow> shell \<Rightarrow> shell option" where
  "main_loop [] st = (if exit_triggered st \<or> halted st \<noteq> None then Some st else None)"
| "main_loop ((sys, line) # rest) st =
     (if exit_triggered st \<or> halted st \<noteq> None then Some st
      else main_loop rest (main_iteration sys line st))"

definition main :: "(os \<times> string option) list \<Rightarrow> shell \<Rightarrow> shell option" where
  "main answers st =
     (case main_loop answers (setup_shell st) of
        None \<Rightarrow> None
      | Some st1 \<Rightarrow> Some (if halted st1 \<noteq> None then st1 else builtin_exit st1))"

section \<open>The specification's wording, as definitions\<close>

subsection \<open>The expansion pass\<close>

text \<open>
  The spec describes the expansion pass by what it does to the text: leading spaces are
  dropped, every run of spaces becomes one space, and every \<open>$$\<close>, read left to right
  without overlap, becomes the process id, a lone \<open>$\<close> staying as it is. The text is the C
  string of the input: the bytes before the first NUL.
\<close>

definition c_string :: "string \<Rightarrow> string" where
  "c_string s = takeWhile (\<lambda>c. c \<noteq> CHR 0x00) s"

definition drop_leading_spaces :: "string \<Rightarrow> string" where
  "drop_leading_spaces s = dropWhile (\<lambda>c. c = CHR '' '') s"

fun squeeze_spaces :: "string \<Rightarrow> string" where
  "squeeze_spaces (c # d # cs) =
     (if c = CHR '' '' \<and> d = CHR '' '' then squeeze_spaces (d # cs)
      else c # squeeze_spaces (d # cs))"
| "squeeze_spaces cs = cs"

fun replace_dollars :: "string \<Rightarrow> string \<Rightarrow> string" where
  "replace_dollars p (c # d # cs) =
     (if c = CHR ''$'' \<and> d = CHR ''$'' then p @ replace_dollars p cs
      else c # replace_dollars p (d # cs))"
| "replace_dollars p cs = cs"

text \<open>\<open>twice c s\<close>: the byte \<open>c\<close> occurs in \<open>s\<close> twice in a row.\<close>

fun twice :: "char \<Rightarrow> string \<Rightarrow> bool" where
  "twice c (a # b # cs) = ((a = c \<and> b = c) \<or> twice c (b # cs))"
| "twice c cs = False"

text \<open>A process-id string that the second pass copies unchanged.\<close>

definition clean :: "string \<Rightarrow> bool" where
  "clean p = (p \<noteq> [] \<and> CHR '' '' \<notin> set p \<and> CHR ''$'' \<notin> set p \<and> CHR 0x00 \<notin> set p)"

text \<open>Decimal digits, and the number that a string of them denotes.\<close>

definition is_digit :: "char \<Rightarrow> bool" where
  "is_digit c = (c \<in> set ''0123456789'')"

definition digit_value :: "char \<Rightarrow> nat" where
  "digit_value c = of_char c - 48"

definition numeral_value :: "string \<Rightarrow> nat" where
  "numeral_value s = foldl (\<lambda>a c. 10 * a + digit_value c) 0 s"

subsection \<open>The line that the parser works on\<close>

text \<open>The line after expansion and right-trimming: what \<^verbatim>\<open>parse_command\<close> has in its buffer.\<close>

definition trimmed_line :: "int \<Rightarrow> string \<Rightarrow> string" where
  "trimmed_line pid s = (let e = expand pid s in take (truncate_right e (length e)) e)"

text \<open>
  A line fits when its expansion, with the terminator, fits the working buffer of
  \<^verbatim>\<open>parse_command\<close>.
\<close>

definition fits :: "int \<Rightarrow> string \<Rightarrow> bool" where
  "fits pid s = (length (expand pid s) < MAX_INPUT_CHARS_SIZE)"

text \<open>
  The background operator as the spec words it: the last byte is \<open>&\<close>, the byte before it
  is a space, and some byte before that space is not a space.
\<close>

definition ends_with_background_operator :: "string \<Rightarrow> bool" where
  "ends_with_background_operator t =
     (let n = length t
      in 2 \<le> n \<and> t ! (n - 1) = CHR ''&'' \<and> t ! (n - 2) = CHR '' '' \<and>
         (\<exists>c \<in> set (take (n - 2) t). c \<noteq> CHR '' ''))"

text \<open>
  The space-delimited tokens of a string: its fields between single spaces, without the
  empty ones.
\<close>

fun space_fields :: "string \<Rightarrow> string list" where
  "space_fields [] = [[]]"
| "space_fields (c # cs) =
     (if c = CHR '' '' then [] # space_fields cs
      else case space_fields cs of w # ws \<Rightarrow> (c # w) # ws | [] \<Rightarrow> [[c]])"

definition tokens :: "string \<Rightarrow> string list" where
  "tokens s = filter (\<lambda>w. w \<noteq> []) (space_fields s)"

subsection \<open>Well-formed command lines\<close>

text \<open>
  A token has at least one byte and no space. A well-formed line is a command and its
  arguments, then redirections (\<open>True\<close> for \<open><\<close>, \<open>False\<close> for \<open>>\<close>, each with a file name),
  then \<open>&\<close> for a background request, all separated by single spaces.
\<close>

definition token :: "string \<Rightarrow> bool" where
  "token w = (w \<noteq> [] \<and> CHR '' '' \<notin> set w)"

definition operator_token :: "string \<Rightarrow> bool" where
  "operator_token w = (w = ''<'' \<or> w = ''>'')"

fun join_words :: "string list \<Rightarrow> string" where
  "join_words [] = []"
| "join_words [w] = w"
| "join_words (w # v # ws) = w @ CHR '' '' # join_words (v # ws)"

definition render_redirect :: "bool \<times> string \<Rightarrow> string" where
  "render_redirect r =
     CHR '' '' # (if fst r then CHR ''<'' else CHR ''>'') # CHR '' '' # snd r"

definition command_line :: "string list \<Rightarrow> (bool \<times> string) list \<Rightarrow> bool \<Rightarrow> string" where
  "command_line ws rs bg =
     join_words ws @ concat (map render_redirect rs) @ (if bg then '' &'' else [])"

text \<open>The same line as a list of tokens, the operators among them.\<close>

definition line_tokens :: "string list \<Rightarrow> (bool \<times> string) list \<Rightarrow> bool \<Rightarrow> string list" where
  "line_tokens ws rs bg =
     ws @ concat (map (\<lambda>r. [[if fst r then CHR ''<'' else CHR ''>''], snd r]) rs) @
     (if bg then [''&''] else [])"

text \<open>
  The parts of a well-formed line are tokens. The command does not begin with \<open>#\<close>, no
  argument is the token \<open><\<close> or \<open>>\<close>, no file name ends with a newline, and the last token
  before the background request, or of a line without one, is not \<open>&\<close>.
\<close>

definition well_formed :: "string list \<Rightarrow> (bool \<times> string) list \<Rightarrow> bool \<Rightarrow> bool" where
  "well_formed ws rs bg =
     (ws \<noteq> [] \<and> (\<forall>w \<in> set ws. token w) \<and> hd (hd ws) \<noteq> CHR ''#'' \<and>
      (\<forall>w \<in> set (tl ws). \<not> operator_token w) \<and>
      (\<forall>r \<in> set rs. token (snd r) \<and> last (snd r) \<noteq> CHR 0x0A) \<and>
      (\<not> bg \<longrightarrow> last (line_tokens ws rs False) \<noteq> ''&''))"

text \<open>
  Last write wins: the path of a stream is the file name of the last redirection that
  names the stream, and absent when no redirection names it.
\<close>

definition last_redirect :: "bool \<Rightarrow> (bool \<times> string) list \<Rightarrow> string option" where
  "last_redirect inp rs =
     (case filter (\<lambda>r. fst r = inp) rs of [] \<Rightarrow> None | r # rs' \<Rightarrow> Some (snd (last (r # rs'))))"




text \<open>A token without \<open>$\<close>, NUL and newline: the expansion and the trimming keep it.\<close>

definition solid :: "string \<Rightarrow> bool" where
  "solid w = (w \<noteq> [] \<and> CHR '' '' \<notin> set w \<and> CHR ''$'' \<notin> set w \<and> CHR 0x00 \<notin> set w
              \<and> CHR 0x0A \<notin> set w)"

subsection \<open>The interpreter's invariant and its operations\<close>

text \<open>
  What a step leaves unchanged: \<open>same_control\<close> for the steps of a command that is run
  from the parent, \<open>same_core\<close> for the handlers of \<open>SIGCHLD\<close>, \<open>same_data\<close> for the child.
\<close>

definition same_control :: "shell \<Rightarrow> shell \<Rightarrow> bool" where
  "same_control st st' =
     (foreground_flag st' = foreground_flag st \<and> sigaction st' = sigaction st \<and>
      halted st' = halted st \<and> input_buffer st' = input_buffer st \<and>
      stdin_indicator st' = stdin_indicator st \<and> exit_triggered st' = exit_triggered st \<and>
      sigchld_blocked st' = sigchld_blocked st \<and> sigchld_pending st' = sigchld_pending st \<and>
      zombies st' = zombies st \<and> calls st' = calls st)"

definition same_data :: "shell \<Rightarrow> shell \<Rightarrow> bool" where
  "same_data st st' =
     (foreground_flag st' = foreground_flag st \<and> input_buffer st' = input_buffer st \<and>
      stdin_indicator st' = stdin_indicator st \<and> exit_triggered st' = exit_triggered st)"

definition same_core :: "shell \<Rightarrow> shell \<Rightarrow> bool" where
  "same_core st st' =
     (foreground_flag st' = foreground_flag st \<and> sigaction st' = sigaction st \<and>
      halted st' = halted st \<and> input_buffer st' = input_buffer st \<and>
      stdin_indicator st' = stdin_indicator st \<and> exit_triggered st' = exit_triggered st)"

text \<open>
  The interpreter while it runs: the toggle handler that is registered matches the flag
  (normal mode with the flag 0, foreground-only mode with the flag 1), \<^verbatim>\<open>SIGCHLD\<close> has one
  of the two reaping handlers, \<^verbatim>\<open>SIGINT\<close> is ignored, and \<^verbatim>\<open>SIGTERM\<close> has its default
  action or is ignored.
\<close>

definition interpreter :: "shell \<Rightarrow> bool" where
  "interpreter st =
     (halted st = None
      \<and> ((foreground_flag st = 0 \<and> sigaction st SIGTSTP = SIGTSTP_handler_normal_mode) \<or>
         (foreground_flag st = 1 \<and>
          sigaction st SIGTSTP = SIGTSTP_handler_foreground_only_mode))
      \<and> (sigaction st SIGCHLD = SIGCHLD_handler \<or>
         sigaction st SIGCHLD = SIGCHLD_handler_no_output)
      \<and> sigaction st SIGINT = SIG_IGN
      \<and> (sigaction st SIGTERM = SIG_DFL \<or> sigaction st SIGTERM = SIG_IGN))"

text \<open>
  The steps of the interpreter's process: a signal is delivered, a child terminates, the
  control loop makes one round, \<^verbatim>\<open>builtin_exit\<close> runs.
\<close>

datatype operation =
    Deliver signal
  | Child_terminates int int
  | Main_iteration os "string option"
  | Builtin_exit

fun perform :: "operation \<Rightarrow> shell \<Rightarrow> shell" where
  "perform (Deliver sig) st = deliver sig st"
| "perform (Child_terminates pid status) st = child_terminates pid status st"
| "perform (Main_iteration sys line) st = main_iteration sys line st"
| "perform Builtin_exit st = builtin_exit st"

text \<open>
  An operating system for the examples: the interpreter has process id 4242, every
  \<^verbatim>\<open>open\<close> gives descriptor 3, \<^verbatim>\<open>fork\<close> gives the parent the child's id 77, and the child
  that is waited for has exited with value 0.
\<close>

definition sample_os :: os where
  "sample_os =
     \<lparr>os_getpid = 4242,
      os_open = (\<lambda>path flags. 3),
      os_fork = 77, os_waitpid = 0, os_execvp_returns = False,
      os_strerror = ''No such file or directory'',
      os_home = Some ''/root'', os_chdir = (\<lambda>dir. Some dir)\<rparr>"
section \<open>Properties of the parser\<close>

subsection \<open>The expansion pass computes what the spec describes\<close>

lemma peek_Nil_iff: "peek s = CHR 0x00 \<longleftrightarrow> s = [] \<or> hd s = CHR 0x00"
  by (cases s) auto

lemma c_string_Cons:
  "c_string (c # s) = (if c = CHR 0x00 then [] else c # c_string s)"
  by (simp add: c_string_def)

lemma peek_c_string: "peek (c_string s) = peek s"
  by (cases s) (auto simp: c_string_def)

lemma c_string_dropWhile:
  "c_string (dropWhile (\<lambda>c. c = CHR '' '') s) = dropWhile (\<lambda>c. c = CHR '' '') (c_string s)"
  by (induction s) (auto simp: c_string_def)

lemma c_string_plain_split:
  "c_string s = takeWhile plain s @ c_string (dropWhile plain s)"
  by (induction s) (auto simp: c_string_def plain_def)

lemma peek_dropWhile_plain: "\<not> plain (peek (dropWhile plain s))"
  by (induction s) (auto simp: plain_def)

lemma peek_dropWhile_space: "peek (dropWhile (\<lambda>c. c = CHR '' '') s) \<noteq> CHR '' ''"
  by (induction s) auto

lemma replace_dollars_other:
  "c \<noteq> CHR ''$'' \<Longrightarrow> replace_dollars p (c # x) = c # replace_dollars p x"
  by (cases x) auto

lemma replace_dollars_lone:
  "peek x \<noteq> CHR ''$'' \<Longrightarrow> replace_dollars p (c # x) = c # replace_dollars p x"
  by (cases x) auto

lemma squeeze_spaces_other:
  "c \<noteq> CHR '' '' \<Longrightarrow> squeeze_spaces (c # x) = c # squeeze_spaces x"
  by (cases x) auto

lemma squeeze_spaces_space:
  "squeeze_spaces (CHR '' '' # x) = CHR '' '' # squeeze_spaces (dropWhile (\<lambda>c. c = CHR '' '') x)"
  by (induction x) (auto simp: squeeze_spaces_other)

lemma peek_squeeze_spaces: "peek (squeeze_spaces x) = peek x"
  by (induction x rule: squeeze_spaces.induct) auto

lemma spec_plain_prefix:
  "\<forall>c \<in> set w. plain c \<Longrightarrow>
   replace_dollars p (squeeze_spaces (w @ y)) = w @ replace_dollars p (squeeze_spaces y)"
  by (induction w) (auto simp: plain_def squeeze_spaces_other replace_dollars_other)

lemma spec_space_step:
  "replace_dollars p (squeeze_spaces (c_string x)) =
     (if peek x = CHR '' ''
      then CHR '' '' # replace_dollars p (squeeze_spaces (dropWhile (\<lambda>c. c = CHR '' '') (c_string (tl x))))
      else replace_dollars p (squeeze_spaces (dropWhile (\<lambda>c. c = CHR '' '') (c_string x))))"
proof (cases x)
  case Nil
  then show ?thesis by (simp add: c_string_def)
next
  case (Cons a x')
  show ?thesis
  proof (cases "a = CHR '' ''")
    case True
    then show ?thesis using Cons
      by (simp add: c_string_def squeeze_spaces_space replace_dollars_other)
  next
    case False
    then have "dropWhile (\<lambda>c. c = CHR '' '') (c_string x) = c_string x"
      using Cons by (simp add: c_string_def)
    then show ?thesis using Cons False by simp
  qed
qed

lemma expand_round_spec:
  assumes "peek inp \<noteq> CHR 0x00"
  shows "replace_dollars p (squeeze_spaces (dropWhile (\<lambda>c. c = CHR '' '') (c_string inp))) =
         fst (expand_round p inp) @
         replace_dollars p (squeeze_spaces
           (dropWhile (\<lambda>c. c = CHR '' '') (c_string (snd (expand_round p inp)))))"
proof -
  define i1 where "i1 = dropWhile (\<lambda>c. c = CHR '' '') inp"
  define w where "w = takeWhile plain i1"
  define i2 where "i2 = dropWhile plain i1"
  have split: "dropWhile (\<lambda>c. c = CHR '' '') (c_string inp) = w @ c_string i2"
    unfolding w_def i2_def i1_def c_string_dropWhile [symmetric]
    by (rule c_string_plain_split)
  have wplain: "\<forall>c \<in> set w. plain c"
    unfolding w_def by (auto dest: set_takeWhileD)
  have head: "replace_dollars p (squeeze_spaces (dropWhile (\<lambda>c. c = CHR '' '') (c_string inp))) =
              w @ replace_dollars p (squeeze_spaces (c_string i2))"
    unfolding split using wplain by (rule spec_plain_prefix)
  have np: "\<not> plain (peek i2)" unfolding i2_def by (rule peek_dropWhile_plain)
  consider (dd) "peek i2 = CHR ''$''" "peek (tl i2) = CHR ''$''"
    | (lone) "peek i2 = CHR ''$''" "peek (tl i2) \<noteq> CHR ''$''"
    | (other) "peek i2 \<noteq> CHR ''$''" by blast
  then show ?thesis
  proof cases
    case dd
    then obtain i3 where i2: "i2 = CHR ''$'' # CHR ''$'' # i3"
      by (cases i2; cases "tl i2") auto
    have "replace_dollars p (squeeze_spaces (c_string i2)) =
          p @ replace_dollars p (squeeze_spaces (c_string i3))"
      unfolding i2 by (simp add: c_string_def squeeze_spaces_other)
    also note spec_space_step [of p i3]
    finally show ?thesis
      using head i2 dd
      by (simp add: expand_round_def Let_def i1_def [symmetric] w_def [symmetric] i2_def [symmetric])
  next
    case lone
    then obtain i3 where i2: "i2 = CHR ''$'' # i3" by (cases i2) auto
    with lone have p3: "peek i3 \<noteq> CHR ''$''" by simp
    have "replace_dollars p (squeeze_spaces (c_string i2)) =
          CHR ''$'' # replace_dollars p (squeeze_spaces (c_string i3))"
      unfolding i2 using p3
      by (simp add: c_string_Cons squeeze_spaces_other replace_dollars_lone
            peek_squeeze_spaces peek_c_string)
    also note spec_space_step [of p i3]
    finally show ?thesis
      using head i2 lone
      by (simp add: expand_round_def Let_def i1_def [symmetric] w_def [symmetric] i2_def [symmetric])
  next
    case other
    note spec_space_step [of p i2]
    then show ?thesis
      using head other
      by (simp add: expand_round_def Let_def i1_def [symmetric] w_def [symmetric] i2_def [symmetric])
  qed
qed

lemma expand_loop_spec:
  "expand_loop p inp =
     replace_dollars p (squeeze_spaces (drop_leading_spaces (c_string inp)))"
proof (induction p inp rule: expand_loop.induct)
  case (1 p inp)
  show ?case
  proof (cases "peek inp = CHR 0x00")
    case True
    then have "c_string inp = []" by (cases inp) (auto simp: c_string_def)
    with True show ?thesis
      by (simp add: expand_loop.simps [of p inp] drop_leading_spaces_def)
  next
    case False
    obtain out rest where r: "expand_round p inp = (out, rest)"
      by (cases "expand_round p inp")
    from "1.IH" [OF False r [symmetric]]
    have "expand_loop p rest =
          replace_dollars p (squeeze_spaces (drop_leading_spaces (c_string rest)))" .
    with False r expand_round_spec [OF False, of p] show ?thesis
      by (simp add: expand_loop.simps [of p inp] drop_leading_spaces_def)
  qed
qed


subsection \<open>The output of the expansion pass is a fixed point\<close>

lemma twice_Cons:
  "twice c (a # y) = ((a = c \<and> y \<noteq> [] \<and> hd y = c) \<or> twice c y)"
  by (cases y) auto

lemma twice_append_clean: "c \<notin> set p \<Longrightarrow> twice c (p @ w) = twice c w"
  by (induction p) (auto simp: twice_Cons)

lemma squeeze_spaces_id: "\<not> twice (CHR '' '') y \<Longrightarrow> squeeze_spaces y = y"
  by (induction y rule: squeeze_spaces.induct) auto

lemma replace_dollars_id: "\<not> twice (CHR ''$'') y \<Longrightarrow> replace_dollars p y = y"
  by (induction p y rule: replace_dollars.induct) auto

lemma hd_squeeze_spaces: "squeeze_spaces x \<noteq> [] \<Longrightarrow> hd (squeeze_spaces x) = hd x"
  using peek_squeeze_spaces [of x] by (cases x; cases "squeeze_spaces x") auto

lemma squeeze_spaces_Nil: "squeeze_spaces x = [] \<longleftrightarrow> x = []"
  by (induction x rule: squeeze_spaces.induct) auto

lemma not_twice_squeeze_spaces: "\<not> twice (CHR '' '') (squeeze_spaces x)"
proof (induction x rule: squeeze_spaces.induct)
  case (1 c d cs)
  then show ?case
    using hd_squeeze_spaces [of "d # cs"] by (auto simp: twice_Cons)
qed simp_all

lemma peek_replace_dollars:
  "p \<noteq> [] \<Longrightarrow> CHR '' '' \<notin> set p \<Longrightarrow> peek x \<noteq> CHR '' '' \<Longrightarrow>
   peek (replace_dollars p x) \<noteq> CHR '' ''"
  by (cases "(p, x)" rule: replace_dollars.cases; cases p) auto

lemma not_twice_space_replace_dollars:
  "p \<noteq> [] \<Longrightarrow> CHR '' '' \<notin> set p \<Longrightarrow> \<not> twice (CHR '' '') x \<Longrightarrow>
   \<not> twice (CHR '' '') (replace_dollars p x)"
proof (induction p x rule: replace_dollars.induct)
  case (1 p c d cs)
  show ?case
  proof (cases "c = CHR ''$'' \<and> d = CHR ''$''")
    case True
    with 1 show ?thesis by (auto simp: twice_append_clean twice_Cons)
  next
    case False
    with 1 have ih: "\<not> twice (CHR '' '') (replace_dollars p (d # cs))" by auto
    have "c = CHR '' '' \<Longrightarrow> peek (replace_dollars p (d # cs)) \<noteq> CHR '' ''"
      using 1(3,4,5) by (intro peek_replace_dollars) auto
    then have "\<not> (c = CHR '' '' \<and> replace_dollars p (d # cs) \<noteq> [] \<and>
                  hd (replace_dollars p (d # cs)) = CHR '' '')"
      by (cases "replace_dollars p (d # cs)") auto
    moreover from False
    have "replace_dollars p (c # d # cs) = c # replace_dollars p (d # cs)" by auto
    ultimately show ?thesis using ih by (simp only: twice_Cons) blast
  qed
qed simp_all

lemma not_twice_dollar_replace_dollars:
  "CHR ''$'' \<notin> set p \<Longrightarrow> \<not> twice (CHR ''$'') (replace_dollars p x)"
proof (induction p x rule: replace_dollars.induct)
  case (1 p c d cs)
  show ?case
  proof (cases "c = CHR ''$'' \<and> d = CHR ''$''")
    case True
    with 1 show ?thesis by (auto simp: twice_append_clean)
  next
    case False
    with 1 have ih: "\<not> twice (CHR ''$'') (replace_dollars p (d # cs))" by auto
    have "c = CHR ''$'' \<Longrightarrow> hd (replace_dollars p (d # cs)) \<noteq> CHR ''$''"
      using False by (simp add: replace_dollars_other)
    with False ih show ?thesis by (auto simp: twice_Cons)
  qed
qed simp_all

lemma set_squeeze_spaces: "set (squeeze_spaces x) \<subseteq> set x"
  by (induction x rule: squeeze_spaces.induct) auto

lemma set_replace_dollars: "set (replace_dollars p x) \<subseteq> set x \<union> set p"
  by (induction p x rule: replace_dollars.induct) auto

lemma c_string_id: "CHR 0x00 \<notin> set y \<Longrightarrow> c_string y = y"
  by (auto simp: c_string_def)

lemma drop_leading_spaces_id: "peek y \<noteq> CHR '' '' \<Longrightarrow> drop_leading_spaces y = y"
  by (cases y) (auto simp: drop_leading_spaces_def)

lemma expand_loop_normal:
  assumes "clean p"
  shows "CHR 0x00 \<notin> set (expand_loop p s)"
    and "peek (expand_loop p s) \<noteq> CHR '' ''"
    and "\<not> twice (CHR '' '') (expand_loop p s)"
    and "\<not> twice (CHR ''$'') (expand_loop p s)"
proof -
  let ?x = "squeeze_spaces (drop_leading_spaces (c_string s))"
  have "CHR 0x00 \<notin> set (c_string s)"
    by (auto simp: c_string_def dest: set_takeWhileD)
  then have "CHR 0x00 \<notin> set ?x"
    using set_squeeze_spaces [of "drop_leading_spaces (c_string s)"]
      set_dropWhileD [of "CHR 0x00" "\<lambda>c. c = CHR '' ''" "c_string s"]
    by (auto simp: drop_leading_spaces_def)
  then show "CHR 0x00 \<notin> set (expand_loop p s)"
    using assms set_replace_dollars [of p ?x] by (auto simp: expand_loop_spec clean_def)
  have "peek ?x \<noteq> CHR '' ''"
    by (simp add: peek_squeeze_spaces drop_leading_spaces_def peek_dropWhile_space)
  then show "peek (expand_loop p s) \<noteq> CHR '' ''"
    using assms by (simp add: expand_loop_spec clean_def peek_replace_dollars)
  show "\<not> twice (CHR '' '') (expand_loop p s)"
    using assms
    by (simp add: expand_loop_spec clean_def not_twice_space_replace_dollars
          not_twice_squeeze_spaces)
  show "\<not> twice (CHR ''$'') (expand_loop p s)"
    using assms by (simp add: expand_loop_spec clean_def not_twice_dollar_replace_dollars)
qed

lemma expand_loop_fixed:
  assumes "CHR 0x00 \<notin> set y" "peek y \<noteq> CHR '' ''"
    "\<not> twice (CHR '' '') y" "\<not> twice (CHR ''$'') y"
  shows "expand_loop p y = y"
  using assms
  by (simp add: expand_loop_spec c_string_id drop_leading_spaces_id squeeze_spaces_id
        replace_dollars_id)

lemma expand_loop_idem: "clean p \<Longrightarrow> expand_loop p (expand_loop p s) = expand_loop p s"
  by (intro expand_loop_fixed expand_loop_normal)

subsection \<open>Decimal numerals\<close>

lemma digit_char_is_digit: "is_digit (digit_char d)"
proof -
  have "d mod 10 < length ''0123456789''" by simp
  then show ?thesis unfolding digit_char_def is_digit_def by (rule nth_mem)
qed

lemma decimal_digits: "\<forall>c \<in> set (decimal n). is_digit c"
proof (induction n rule: decimal.induct)
  case (1 n)
  then show ?case
    by (subst decimal.simps) (auto simp: digit_char_is_digit)
qed

lemma decimal_not_Nil: "decimal n \<noteq> []"
  by (subst decimal.simps) simp

lemma digit_char_zero: "d < 10 \<Longrightarrow> digit_char d = CHR ''0'' \<longleftrightarrow> d = 0"
proof -
  assume "d < 10"
  then have "d \<in> {0, 1, 2, 3, 4, 5, 6, 7, 8, 9}" by auto
  then show ?thesis by (auto simp: digit_char_def)
qed

lemma decimal_leading_zero: "hd (decimal n) = CHR ''0'' \<Longrightarrow> n = 0"
proof (induction n rule: decimal.induct)
  case (1 n)
  show ?case
  proof (cases "n < 10")
    case True
    with "1.prems" show ?thesis
      by (simp add: decimal.simps [of n] digit_char_zero)
  next
    case False
    with "1.prems" have "hd (decimal (n div 10)) = CHR ''0''"
      by (simp add: decimal.simps [of n] decimal_not_Nil)
    with "1.IH" False have "n div 10 = 0" by simp
    with False show ?thesis by simp
  qed
qed

lemma digit_value_digit_char: "d < 10 \<Longrightarrow> digit_value (digit_char d) = d"
proof -
  assume "d < 10"
  then have "d \<in> {0, 1, 2, 3, 4, 5, 6, 7, 8, 9}" by auto
  then show ?thesis by (auto simp: digit_char_def digit_value_def)
qed

lemma numeral_value_decimal: "numeral_value (decimal n) = n"
proof (induction n rule: decimal.induct)
  case (1 n)
  show ?case
  proof (cases "n < 10")
    case True
    then show ?thesis
      by (simp add: decimal.simps [of n] numeral_value_def digit_value_digit_char)
  next
    case False
    with "1.IH" have "numeral_value (decimal (n div 10)) = n div 10" by simp
    with False show ?thesis
      by (simp add: decimal.simps [of n] numeral_value_def digit_value_digit_char)
  qed
qed

lemma clean_sprintf_d: "clean (sprintf_d v)"
proof -
  have "\<not> is_digit (CHR '' '')" "\<not> is_digit (CHR ''$'')" "\<not> is_digit (CHR 0x00)"
    by (simp_all add: is_digit_def)
  then have "\<And>n. CHR '' '' \<notin> set (decimal n) \<and> CHR ''$'' \<notin> set (decimal n) \<and>
    CHR 0x00 \<notin> set (decimal n)"
    using decimal_digits by blast
  then show ?thesis
    by (simp add: clean_def sprintf_d_def decimal_not_Nil)
qed

subsection \<open>The parser returns a descriptor with arguments\<close>

lemma truncate_right_le: "truncate_right s n \<le> n"
  by (induction n) auto


lemma truncate_right_id:
  "0 < n \<Longrightarrow> s ! (n - 1) \<noteq> CHR '' '' \<Longrightarrow> s ! (n - 1) \<noteq> CHR 0x0A \<Longrightarrow> truncate_right s n = n"
  by (cases n) auto

lemma expand_head: "peek (expand pid s) \<noteq> CHR '' ''"
  unfolding expand_def by (rule expand_loop_normal) (rule clean_sprintf_d)

lemma trimmed_line_head: "trimmed_line pid s \<noteq> [] \<Longrightarrow> hd (trimmed_line pid s) \<noteq> CHR '' ''"
  using expand_head [of pid s]
  by (cases "expand pid s") (auto simp: trimmed_line_def Let_def hd_take split: if_splits)

lemma redirect_loop_streams:
  "\<exists>i out. redirect_loop s c = c\<lparr>i_stream := i, o_stream := out\<rparr>"
proof (induction s c rule: redirect_loop.induct)
  case (1 s c)
  show ?case
  proof (cases "length s \<le> 1")
    case True
    have "c = c\<lparr>i_stream := i_stream c, o_stream := o_stream c\<rparr>" by simp
    with True show ?thesis by (metis redirect_loop.simps)
  next
    case False
    obtain ri fname rest where r: "redirect_round s = (ri, fname, rest)"
      by (cases "redirect_round s")
    from "1.IH" [OF False r [symmetric] refl] False r show ?thesis
      by (cases fname; cases ri) (auto simp: redirect_loop.simps [of s c])
  qed
qed

lemma redirect_loop_argv: "argv (redirect_loop s c) = argv c"
  using redirect_loop_streams [of s c] by auto

lemma redirect_loop_background: "background (redirect_loop s c) = background c"
  using redirect_loop_streams [of s c] by auto

lemma find_redirect_append: "fst (find_redirect s) @ snd (find_redirect s) = s"
  by (induction s rule: find_redirect.induct) (auto split: prod.splits)

lemma strtok_r_token:
  assumes "strtok_r s = Some (t, r)"
  shows "t \<noteq> []"
proof -
  let ?s1 = "dropWhile (\<lambda>c. c = CHR '' '') s"
  from assms have ne: "?s1 \<noteq> []" and t: "t = takeWhile (\<lambda>c. c \<noteq> CHR '' '') ?s1"
    by (auto simp: strtok_r_def Let_def split: if_splits)
  from ne have "hd ?s1 \<noteq> CHR '' ''"
    using hd_dropWhile [of "\<lambda>c. c = CHR '' ''" s] by simp
  with ne show ?thesis unfolding t by (cases ?s1) auto
qed

lemma strtok_r_Some:
  assumes "s \<noteq> []" and "hd s \<noteq> CHR '' ''"
  shows "\<exists>t r. strtok_r s = Some (t, r)"
  using assms by (cases s) (auto simp: strtok_r_def)

lemma parse_args_loop_nonempty:
  "t \<noteq> [] \<Longrightarrow> \<forall>a \<in> set (parse_args_loop i t s). a \<noteq> []"
proof (induction i t s rule: parse_args_loop.induct)
  case (1 i t s)
  show ?case
  proof (cases "strtok_r s")
    case None
    with "1.prems" show ?thesis by (simp add: parse_args_loop.simps [of i t s])
  next
    case (Some a)
    obtain t' s' where a: "a = (t', s')" by (cases a)
    with Some have "t' \<noteq> []" by (auto dest: strtok_r_token)
    with "1.IH" [OF Some a [symmetric]] "1.prems" Some a show ?thesis
      by (auto simp: parse_args_loop.simps [of i t s])
  qed
qed

lemma parse_args_loop_length:
  "i < MAX_ARGV_SIZE \<Longrightarrow> length (parse_args_loop i t s) \<le> MAX_ARGV_SIZE - i"
proof (induction i t s rule: parse_args_loop.induct)
  case (1 i t s)
  show ?case
  proof (cases "strtok_r s")
    case None
    with "1.prems" show ?thesis by (simp add: parse_args_loop.simps [of i t s])
  next
    case (Some a)
    obtain t' s' where a: "a = (t', s')" by (cases a)
    with "1.IH" [OF Some a [symmetric]] "1.prems" Some a show ?thesis
      by (auto simp: parse_args_loop.simps [of i t s])
  qed
qed

text \<open>The argument string is never without a token when the line starts with one.\<close>

lemma parse_operands_ok:
  assumes "cs \<noteq> []" and "hd cs \<noteq> CHR '' ''"
  shows "\<exists>d. parse_operands cs c = Inr d \<and> argv d \<noteq> [] \<and> (\<forall>a \<in> set (argv d). a \<noteq> [])
           \<and> length (argv d) \<le> MAX_ARGV_SIZE \<and> background d = background c"
proof -
  obtain before at where fr: "find_redirect cs = (before, at)"
    by (cases "find_redirect cs")
  with find_redirect_append [of cs] have cs: "cs = before @ at" by simp
  define argv_string where
    "argv_string = (if peek at = CHR '' '' then before else before @ at)"
  define rest where "rest = (if peek at = CHR '' '' then tl at else at)"
  have "argv_string \<noteq> [] \<and> hd argv_string \<noteq> CHR '' ''"
  proof (cases before)
    case Nil
    with cs assms show ?thesis by (cases at) (auto simp: argv_string_def)
  next
    case (Cons b bs)
    with cs assms show ?thesis by (auto simp: argv_string_def)
  qed
  then obtain t r where tok: "strtok_r argv_string = Some (t, r)"
    using strtok_r_Some by blast
  then have t: "t \<noteq> []" by (rule strtok_r_token)
  have po: "parse_operands cs c =
        Inr (redirect_loop rest (c\<lparr>argv := parse_args_loop 0 t r\<rparr>))"
    using fr tok
    by (auto simp: parse_operands_def parse_args_def argv_string_def rest_def)
  have "MAX_ARGV_SIZE > 0" by (simp add: MAX_ARGV_SIZE_def)
  then have "length (parse_args_loop 0 t r) \<le> MAX_ARGV_SIZE"
    using parse_args_loop_length [of 0 t r] by simp
  moreover have "parse_args_loop 0 t r \<noteq> []"
    by (simp add: parse_args_loop.simps [of 0 t r])
  ultimately show ?thesis
    using parse_args_loop_nonempty [OF t, of 0 r]
    by (simp add: po redirect_loop_argv redirect_loop_background)
qed


lemma parse_command_overflow: "\<not> fits pid s \<Longrightarrow> parse_command pid s = Inl Buffer_overflow"
  by (simp add: parse_command_def fits_def Let_def)

lemma parse_command_trimmed:
  assumes "fits pid s"
  shows "parse_command pid s =
     (let t = trimmed_line pid s
      in if t = [] \<or> hd t = CHR ''#'' then Inr None
         else case (if background_requested t
                    then parse_operands (take (length t - 2) t)
                           (create_command_struct\<lparr>background := True\<rparr>)
                    else parse_operands t create_command_struct)
              of Inl f \<Rightarrow> Inl f | Inr d \<Rightarrow> Inr (Some d))"
proof -
  define e where "e = expand pid s"
  define len where "len = truncate_right e (length e)"
  have le: "len \<le> length e" unfolding len_def by (rule truncate_right_le)
  then have l: "length (take len e) = len" by simp
  have nil: "take len e = [] \<longleftrightarrow> len = 0" using le by (cases e) auto
  have hd: "len \<noteq> 0 \<Longrightarrow> take len e ! 0 = hd (take len e)"
    using nil by (simp add: hd_conv_nth)
  from assms have fit: "\<not> MAX_INPUT_CHARS_SIZE \<le> length e"
    by (simp add: fits_def e_def)
  show ?thesis
    unfolding parse_command_def trimmed_line_def Let_def e_def [symmetric] len_def [symmetric]
    using nil hd l fit by auto
qed

lemma background_requested_iff:
  assumes "t \<noteq> []" and "hd t \<noteq> CHR '' ''"
  shows "background_requested t \<longleftrightarrow> ends_with_background_operator t"
proof
  assume "background_requested t"
  then have n: "length t - 1 > 1" and a: "t ! (length t - 1) = CHR ''&''"
    and b: "t ! (length t - 2) = CHR '' ''"
    by (auto simp: background_requested_def Let_def numeral_2_eq_2)
  from n have "take (length t - 2) t \<noteq> []" by auto
  moreover from n assms have "hd (take (length t - 2) t) = hd t" by (cases t) auto
  ultimately have "\<exists>c \<in> set (take (length t - 2) t). c \<noteq> CHR '' ''"
    using assms(2) by (metis hd_in_set)
  with n a b show "ends_with_background_operator t"
    by (simp add: ends_with_background_operator_def Let_def)
next
  assume e: "ends_with_background_operator t"
  then have "take (length t - 2) t \<noteq> []"
    by (auto simp: ends_with_background_operator_def Let_def)
  then have "length t - 1 > 1" by auto
  with e show "background_requested t"
    by (auto simp: background_requested_def ends_with_background_operator_def Let_def
          numeral_2_eq_2)
qed

lemma expand_ampersand: "expand pid ''&'' = ''&''"
  by (simp add: expand_def expand_loop_spec c_string_def drop_leading_spaces_def)

lemma parse_command_blank:
  "fits pid s \<Longrightarrow> trimmed_line pid s = [] \<or> hd (trimmed_line pid s) = CHR ''#'' \<Longrightarrow>
   parse_command pid s = Inr None"
  by (simp add: parse_command_trimmed)

lemma parse_command_descriptor:
  assumes "fits pid s"
    and "\<not> (trimmed_line pid s = [] \<or> hd (trimmed_line pid s) = CHR ''#'')"
  shows "\<exists>d. parse_command pid s = Inr (Some d) \<and> argv d \<noteq> [] \<and>
             (\<forall>a \<in> set (argv d). a \<noteq> []) \<and> length (argv d) \<le> MAX_ARGV_SIZE"
proof -
  let ?t = "trimmed_line pid s"
  note pc = parse_command_trimmed [OF assms(1)]
  from assms(2) have ne: "?t \<noteq> []" and hd: "hd ?t \<noteq> CHR '' ''"
    using trimmed_line_head [of pid s] by auto
  show ?thesis
  proof (cases "background_requested ?t")
    case True
    then have "length ?t - 1 > 1" by (simp add: background_requested_def Let_def)
    then have "take (length ?t - 2) ?t \<noteq> []" by auto
    moreover from this have "hd (take (length ?t - 2) ?t) \<noteq> CHR '' ''"
      using hd by (cases ?t) auto
    ultimately obtain d where
      "parse_operands (take (length ?t - 2) ?t)
         (create_command_struct\<lparr>background := True\<rparr>) = Inr d"
      "argv d \<noteq> []" "\<forall>a \<in> set (argv d). a \<noteq> []" "length (argv d) \<le> MAX_ARGV_SIZE"
      using parse_operands_ok by blast
    with assms(2) True show ?thesis by (simp add: pc)
  next
    case nobg: False
    from ne hd obtain d where
      "parse_operands ?t create_command_struct = Inr d"
      "argv d \<noteq> []" "\<forall>a \<in> set (argv d). a \<noteq> []" "length (argv d) \<le> MAX_ARGV_SIZE"
      using parse_operands_ok by blast
    with assms(2) nobg show ?thesis by (simp add: pc)
  qed
qed

subsection \<open>\<^verbatim>\<open>parse_args\<close> collects the space-delimited tokens, up to the cap\<close>

lemma fields_not_Nil: "space_fields s \<noteq> []"
  by (induction s) (auto split: list.splits)

lemma fields_split:
  "space_fields s = takeWhile (\<lambda>c. c \<noteq> CHR '' '') s #
     (case dropWhile (\<lambda>c. c \<noteq> CHR '' '') s of [] \<Rightarrow> [] | _ # r \<Rightarrow> space_fields r)"
  by (induction s) (auto split: list.splits simp: fields_not_Nil)

lemma tokens_space: "tokens (CHR '' '' # s) = tokens s"
  by (simp add: tokens_def)

lemma tokens_dropWhile: "tokens (dropWhile (\<lambda>c. c = CHR '' '') s) = tokens s"
  by (induction s) (auto simp: tokens_space)

lemma tokens_Nil: "tokens [] = []"
  by (simp add: tokens_def)

lemma tokens_word:
  assumes "s \<noteq> []" and "hd s \<noteq> CHR '' ''"
  shows "tokens s = takeWhile (\<lambda>c. c \<noteq> CHR '' '') s #
                    tokens (drop 1 (dropWhile (\<lambda>c. c \<noteq> CHR '' '') s))"
proof -
  from assms have ne: "takeWhile (\<lambda>c. c \<noteq> CHR '' '') s \<noteq> []" by (cases s) auto
  note f = fields_split [of s]
  show ?thesis
  proof (cases "dropWhile (\<lambda>c. c \<noteq> CHR '' '') s")
    case Nil
    from f [unfolded Nil list.case] ne show ?thesis
      unfolding Nil by (simp add: tokens_def)
  next
    case (Cons a r)
    from f [unfolded Cons list.case] ne show ?thesis
      unfolding Cons by (simp add: tokens_def)
  qed
qed

lemma strtok_r_tokens:
  "strtok_r s = None \<longleftrightarrow> tokens s = []"
  "strtok_r s = Some (t, r) \<Longrightarrow> tokens s = t # tokens r"
proof -
  define s1 where "s1 = dropWhile (\<lambda>c. c = CHR '' '') s"
  have hd: "s1 \<noteq> [] \<Longrightarrow> hd s1 \<noteq> CHR '' ''"
    unfolding s1_def using hd_dropWhile [of "\<lambda>c. c = CHR '' ''" s] by simp
  have eq: "tokens s = tokens s1" unfolding s1_def by (simp add: tokens_dropWhile)
  have st: "strtok_r s =
     (if s1 = [] then None
      else Some (takeWhile (\<lambda>c. c \<noteq> CHR '' '') s1,
                 drop 1 (dropWhile (\<lambda>c. c \<noteq> CHR '' '') s1)))"
    unfolding strtok_r_def s1_def Let_def by (rule refl)
  show "strtok_r s = None \<longleftrightarrow> tokens s = []"
    unfolding eq st using tokens_word [of s1] hd by (auto simp: tokens_Nil)
  show "strtok_r s = Some (t, r) \<Longrightarrow> tokens s = t # tokens r"
    unfolding eq st using tokens_word [of s1] hd by (auto split: if_splits)
qed

lemma parse_args_loop_tokens:
  "i < MAX_ARGV_SIZE \<Longrightarrow> parse_args_loop i t s = take (MAX_ARGV_SIZE - i) (t # tokens s)"
proof (induction i t s rule: parse_args_loop.induct)
  case (1 i t s)
  from "1.prems" obtain k where k: "MAX_ARGV_SIZE - i = Suc k"
    by (cases "MAX_ARGV_SIZE - i") auto
  show ?case
  proof (cases "strtok_r s")
    case None
    then show ?thesis
      using strtok_r_tokens(1) [of s] k by (simp add: parse_args_loop.simps [of i t s])
  next
    case (Some a)
    obtain t' s' where a: "a = (t', s')" by (cases a)
    with Some have tok: "tokens s = t' # tokens s'" by (simp add: strtok_r_tokens(2))
    show ?thesis
    proof (cases "Suc i < MAX_ARGV_SIZE")
      case True
      with k have "MAX_ARGV_SIZE - Suc i = k" by simp
      with "1.IH" [OF Some a [symmetric] True True] Some a tok k True show ?thesis
        by (simp add: parse_args_loop.simps [of i t s])
    next
      case False
      with k "1.prems" have "k = 0" by simp
      with Some a tok k False show ?thesis
        by (simp add: parse_args_loop.simps [of i t s])
    qed
  qed
qed

lemma parse_args_tokens:
  "parse_args s =
     (if tokens s = [] then Inl Null_dereference else Inr (take MAX_ARGV_SIZE (tokens s)))"
proof (cases "strtok_r s")
  case None
  then show ?thesis using strtok_r_tokens(1) [of s] by (simp add: parse_args_def)
next
  case (Some a)
  obtain t r where a: "a = (t, r)" by (cases a)
  have "0 < MAX_ARGV_SIZE" by (simp add: MAX_ARGV_SIZE_def)
  with Some a show ?thesis
    using strtok_r_tokens(2) [of s t r] parse_args_loop_tokens [of 0 t r]
    by (simp add: parse_args_def)
qed

subsection \<open>Parsing a well-formed command line\<close>

lemma solid_token: "solid w \<Longrightarrow> token w"
  by (simp add: solid_def token_def)

lemma token_hd: "token w \<Longrightarrow> hd w \<noteq> CHR '' ''"
  unfolding token_def by (metis hd_in_set)

lemma token_last: "token w \<Longrightarrow> last w \<noteq> CHR '' ''"
  unfolding token_def by (metis last_in_set)

lemma solid_hd: "solid w \<Longrightarrow> hd w \<noteq> CHR '' ''"
  unfolding solid_def by (metis hd_in_set)

lemma solid_last: "solid w \<Longrightarrow> last w \<noteq> CHR '' '' \<and> last w \<noteq> CHR 0x0A"
  unfolding solid_def by (metis last_in_set)

lemma join_words_Cons:
  "join_words (w # ws) = (if ws = [] then w else w @ CHR '' '' # join_words ws)"
  by (cases ws) auto

lemma join_words_append:
  "us \<noteq> [] \<Longrightarrow> vs \<noteq> [] \<Longrightarrow> join_words (us @ vs) = join_words us @ CHR '' '' # join_words vs"
  by (induction us rule: join_words.induct) (auto simp: join_words_Cons)

lemma join_words_Nil: "\<forall>w \<in> set ws. w \<noteq> [] \<Longrightarrow> join_words ws = [] \<longleftrightarrow> ws = []"
  by (induction ws rule: join_words.induct) auto

lemma hd_join_words: "w \<noteq> [] \<Longrightarrow> hd (join_words (w # ws)) = hd w"
  by (simp add: join_words_Cons)

lemma last_join_words:
  "ws \<noteq> [] \<Longrightarrow> \<forall>w \<in> set ws. w \<noteq> [] \<Longrightarrow> last (join_words ws) = last (last ws)"
  by (induction ws rule: join_words.induct) (auto simp: join_words_Nil)

lemma set_join_words: "set (join_words ws) \<subseteq> (\<Union>w \<in> set ws. set w) \<union> {CHR '' ''}"
  by (induction ws rule: join_words.induct) auto

lemma not_twice_notin: "c \<notin> set s \<Longrightarrow> \<not> twice c s"
  by (induction c s rule: twice.induct) auto

lemma not_twice_join_words:
  "\<forall>w \<in> set ws. w \<noteq> [] \<and> CHR '' '' \<notin> set w \<Longrightarrow> \<not> twice (CHR '' '') (join_words ws)"
proof (induction ws rule: join_words.induct)
  case (3 w v ws)
  then have "hd (join_words (v # ws)) \<noteq> CHR '' ''"
    by (cases v) (auto simp: hd_join_words)
  with 3 show ?case
    by (auto simp: twice_append_clean twice_Cons)
qed (auto simp: not_twice_notin)

lemma expand_join_words:
  assumes "ws \<noteq> []" and "\<forall>w \<in> set ws. solid w"
  shows "expand pid (join_words ws) = join_words ws"
  unfolding expand_def
proof (rule expand_loop_fixed)
  from assms(2) set_join_words [of ws]
  show "CHR 0x00 \<notin> set (join_words ws)" by (auto simp: solid_def)
  from assms(2) set_join_words [of ws]
  have "CHR ''$'' \<notin> set (join_words ws)" by (auto simp: solid_def)
  then show "\<not> twice (CHR ''$'') (join_words ws)" by (rule not_twice_notin)
  from assms(2) show "\<not> twice (CHR '' '') (join_words ws)"
    by (intro not_twice_join_words) (auto simp: solid_def)
  from assms obtain w ws' where ws: "ws = w # ws'" by (cases ws) auto
  with assms(2) have "w \<noteq> []" "hd w \<noteq> CHR '' ''"
    using solid_hd [of w] by (auto simp: solid_def)
  then show "peek (join_words ws) \<noteq> CHR '' ''"
    unfolding ws by (cases w) (auto simp: join_words_Cons)
qed

lemma trimmed_line_join_words:
  assumes "ws \<noteq> []" and "\<forall>w \<in> set ws. solid w"
  shows "trimmed_line pid (join_words ws) = join_words ws"
proof -
  let ?L = "join_words ws"
  from assms have ne: "?L \<noteq> []" by (subst join_words_Nil) (auto simp: solid_def)
  from assms have "last ?L = last (last ws)"
    by (intro last_join_words) (auto simp: solid_def)
  moreover from assms have "solid (last ws)" by simp
  then have "last (last ws) \<noteq> CHR '' ''" "last (last ws) \<noteq> CHR 0x0A"
    using solid_last by blast+
  ultimately have "?L ! (length ?L - 1) \<noteq> CHR '' ''" "?L ! (length ?L - 1) \<noteq> CHR 0x0A"
    using ne by (simp_all add: last_conv_nth)
  with ne have "truncate_right ?L (length ?L) = length ?L"
    by (intro truncate_right_id) auto
  then show ?thesis
    by (simp add: trimmed_line_def expand_join_words [OF assms])
qed



lemma at_redirect_iff:
  "at_redirect s \<longleftrightarrow>
     (\<exists>rest. s = CHR '' '' # CHR ''>'' # CHR '' '' # rest \<or>
             s = CHR '' '' # CHR ''<'' # CHR '' '' # rest)"
proof -
  have "take 3 s = [a, b, c] \<longleftrightarrow> (\<exists>rest. s = a # b # c # rest)" for a b c :: char
    by (cases s; cases "tl s"; cases "tl (tl s)") auto
  then show ?thesis by (auto simp: at_redirect_def)
qed

lemma at_redirect_second:
  "at_redirect (c # d # cs) \<Longrightarrow> c = CHR '' '' \<and> (d = CHR ''<'' \<or> d = CHR ''>'')"
  by (auto simp: at_redirect_def)

lemma at_redirect_hd: "at_redirect s \<Longrightarrow> s \<noteq> [] \<and> hd s = CHR '' ''"
  by (auto simp: at_redirect_iff)

text \<open>The scan stops at the first operator, and at the last byte if there is none.\<close>

lemma find_redirect_stop:
  assumes "\<forall>k < length u. \<not> at_redirect (drop k (u @ v))" and "at_redirect v"
  shows "find_redirect (u @ v) = (u, v)"
  using assms(1)
proof (induction u)
  case Nil
  from assms(2) obtain c d cs where "v = c # d # cs" by (auto simp: at_redirect_iff)
  with assms(2) show ?case by simp
next
  case (Cons a u)
  from assms(2) have "u @ v \<noteq> []" by (auto simp: at_redirect_iff)
  then obtain d rest where dr: "u @ v = d # rest" by (cases "u @ v") auto
  from Cons.prems have "\<not> at_redirect (drop 0 ((a # u) @ v))" by blast
  then have na: "\<not> at_redirect (a # d # rest)" by (simp add: dr)
  have "\<forall>k < length u. \<not> at_redirect (drop k (u @ v))"
  proof (intro allI impI)
    fix k assume "k < length u"
    then have "Suc k < length (a # u)" by simp
    with Cons.prems have "\<not> at_redirect (drop (Suc k) ((a # u) @ v))" by blast
    then show "\<not> at_redirect (drop k (u @ v))" by simp
  qed
  with Cons.IH have "find_redirect (u @ v) = (u, v)" by simp
  with na dr show ?case by simp
qed

lemma find_redirect_none:
  "s \<noteq> [] \<Longrightarrow> \<forall>k < length s. \<not> at_redirect (drop k s) \<Longrightarrow>
   find_redirect s = (butlast s, [last s])"
proof (induction s rule: find_redirect.induct)
  case (1 c d cs)
  from "1.prems"(2) have "\<not> at_redirect (drop 0 (c # d # cs))" by blast
  then have na: "\<not> at_redirect (c # d # cs)" by simp
  have "\<forall>k < length (d # cs). \<not> at_redirect (drop k (d # cs))"
  proof (intro allI impI)
    fix k assume "k < length (d # cs)"
    then have "Suc k < length (c # d # cs)" by simp
    with "1.prems"(2) have "\<not> at_redirect (drop (Suc k) (c # d # cs))" by blast
    then show "\<not> at_redirect (drop k (d # cs))" by simp
  qed
  with "1.IH" [OF na] have "find_redirect (d # cs) = (butlast (d # cs), [last (d # cs)])"
    by simp
  with na show ?case by simp
qed simp_all

text \<open>No operator is found inside a token, nor among words that are not operators.\<close>

lemma token_no_redirect:
  assumes "token f" and "k < length f"
  shows "\<not> at_redirect (drop k (f @ v))"
proof
  assume a: "at_redirect (drop k (f @ v))"
  from assms(2) have d: "drop k (f @ v) = f ! k # drop (Suc k) f @ v"
    by (simp add: Cons_nth_drop_Suc)
  from a have "hd (drop k (f @ v)) = CHR '' ''" by (simp add: at_redirect_hd)
  with d have "f ! k = CHR '' ''" by simp
  with assms show False by (auto simp: token_def dest: nth_mem)
qed

lemma token_operator:
  assumes "token w" and "x = [] \<or> hd x = CHR '' ''"
    and "\<exists>rest. w @ x = c # CHR '' '' # rest"
  shows "w = [c]"
proof -
  from assms(1) obtain a w' where w: "w = a # w'" by (cases w) (auto simp: token_def)
  with assms(3) have a: "a = c" and r: "\<exists>rest. w' @ x = CHR '' '' # rest" by auto
  have "w' = []"
  proof (rule ccontr)
    assume "w' \<noteq> []"
    with r have "hd w' = CHR '' ''" by (cases w') auto
    with \<open>w' \<noteq> []\<close> have "CHR '' '' \<in> set w'" by (metis hd_in_set)
    with assms(1) show False by (simp add: token_def w)
  qed
  with a w show ?thesis by simp
qed

lemma join_words_no_redirect:
  assumes "\<forall>w \<in> set ws. token w" and "\<forall>w \<in> set (tl ws). \<not> operator_token w"
    and "v = [] \<or> hd v = CHR '' ''"
  shows "\<forall>k < length (join_words ws). \<not> at_redirect (drop k (join_words ws @ v))"
  using assms(1,2)
proof (induction ws rule: join_words.induct)
  case 1
  show ?case by simp
next
  case (2 w)
  then have tw: "token w" by simp
  show ?case
  proof (intro allI impI)
    fix k assume "k < length (join_words [w])"
    then have "k < length w" by simp
    with tw have "\<not> at_redirect (drop k (w @ v))" by (rule token_no_redirect)
    then show "\<not> at_redirect (drop k (join_words [w] @ v))" by simp
  qed
next
  case (3 w u ws)
  let ?J = "join_words (u # ws)"
  from "3.prems" have tw: "token w" and tu: "token u" and nu: "\<not> operator_token u" by simp_all
  have IH: "\<forall>k < length ?J. \<not> at_redirect (drop k (?J @ v))"
    using "3.IH" "3.prems" by (cases ws) auto
  have x: "?J @ v = u @ (if ws = [] then v else CHR '' '' # join_words ws @ v)"
    by (simp add: join_words_Cons)
  have sep: "\<not> at_redirect (CHR '' '' # ?J @ v)"
  proof
    assume "at_redirect (CHR '' '' # ?J @ v)"
    then obtain c rest where c: "c = CHR ''>'' \<or> c = CHR ''<''"
      and e: "?J @ v = c # CHR '' '' # rest"
      by (auto simp: at_redirect_iff)
    have "u = [c]"
    proof (rule token_operator [OF tu])
      show "(if ws = [] then v else CHR '' '' # join_words ws @ v) = [] \<or>
            hd (if ws = [] then v else CHR '' '' # join_words ws @ v) = CHR '' ''"
        using assms(3) by simp
      show "\<exists>rest. u @ (if ws = [] then v else CHR '' '' # join_words ws @ v) =
              c # CHR '' '' # rest"
        using e x by auto
    qed
    with c nu show False by (auto simp: operator_token_def)
  qed
  show ?case
  proof (intro allI impI)
    fix k assume k: "k < length (join_words (w # u # ws))"
    have J: "join_words (w # u # ws) @ v = w @ CHR '' '' # ?J @ v" by simp
    consider "k < length w" | "k = length w" | "length w < k" by linarith
    then show "\<not> at_redirect (drop k (join_words (w # u # ws) @ v))"
    proof cases
      case 1
      with tw show ?thesis unfolding J by (rule token_no_redirect)
    next
      case 2
      with sep show ?thesis unfolding J by simp
    next
      case 3
      define j where "j = k - length w - 1"
      with 3 have j: "k = length w + Suc j" by simp
      with k have "j < length ?J" by simp
      with IH have "\<not> at_redirect (drop j (?J @ v))" by blast
      then show ?thesis unfolding J j by simp
    qed
  qed
qed

lemma skip_spaces_id: "s = [] \<or> hd s \<noteq> CHR '' '' \<Longrightarrow> skip_spaces s = s"
  by (cases s rule: skip_spaces.cases) auto

lemma tokens_solid_word:
  assumes "w \<noteq> []" and "CHR '' '' \<notin> set w"
  shows "tokens (w @ CHR '' '' # rest) = w # tokens rest" and "tokens w = [w]"
proof -
  from assms have hd: "hd w \<noteq> CHR '' ''" by (metis hd_in_set)
  from assms(2) have all: "\<forall>c \<in> set w. c \<noteq> CHR '' ''" by blast
  have tw: "takeWhile (\<lambda>c. c \<noteq> CHR '' '') (w @ CHR '' '' # rest) = w"
    using all by (simp add: takeWhile_tail)
  have dw: "dropWhile (\<lambda>c. c \<noteq> CHR '' '') (w @ CHR '' '' # rest) = CHR '' '' # rest"
    using all by (simp add: dropWhile_append3)
  from assms hd show "tokens (w @ CHR '' '' # rest) = w # tokens rest"
    using tokens_word [of "w @ CHR '' '' # rest"] by (simp add: tw dw)
  have tw2: "takeWhile (\<lambda>c. c \<noteq> CHR '' '') w = w"
    and dw2: "dropWhile (\<lambda>c. c \<noteq> CHR '' '') w = []"
    using all by auto
  from tokens_word [OF assms(1) hd, unfolded tw2 dw2] show "tokens w = [w]"
    by (simp add: tokens_Nil)
qed

lemma tokens_join_words:
  "\<forall>w \<in> set ws. w \<noteq> [] \<and> CHR '' '' \<notin> set w \<Longrightarrow> tokens (join_words ws) = ws"
  by (induction ws rule: join_words.induct) (auto simp: tokens_Nil tokens_solid_word)

lemma truncate_right_span:
  assumes "f \<noteq> []" and "last f \<noteq> CHR '' ''" and "last f \<noteq> CHR 0x0A"
  shows "truncate_right (f @ '' '') (length (f @ '' '')) = length f"
    and "truncate_right f (length f) = length f"
proof -
  from assms(1) obtain n where n: "length f = Suc n" by (cases f) auto
  with assms have "f ! n \<noteq> CHR '' ''" "f ! n \<noteq> CHR 0x0A"
    by (simp_all add: last_conv_nth)
  then show "truncate_right (f @ '' '') (length (f @ '' '')) = length f"
    and "truncate_right f (length f) = length f"
    using n by (simp_all add: nth_append)
qed

lemma token_span:
  assumes "token f" and "last f \<noteq> CHR 0x0A"
  shows "truncate_right (f @ '' '') (length (f @ '' '')) = length f"
    and "truncate_right f (length f) = length f"
  using assms truncate_right_span [of f] by (simp_all add: token_def token_last)

lemma at_redirect_rendered:
  "rs \<noteq> [] \<Longrightarrow> at_redirect (concat (map render_redirect rs))"
  by (cases rs) (auto simp: at_redirect_def render_redirect_def)

text \<open>
  A round of the redirection loop on a rendered redirection. The block has the length of
  the span: one byte more than the file name when another redirection follows, and just
  the length of the file name when the file name ends the line.
\<close>

lemma redirect_round_rendered:
  assumes "token f" and "last f \<noteq> CHR 0x0A"
  shows "redirect_round ((if i then CHR ''<'' else CHR ''>'') # CHR '' '' # f @
            concat (map render_redirect rs)) =
         (i, Some \<lparr>block_size = length f + (if rs = [] then 0 else 1), chars = f\<rparr>,
          tl (concat (map render_redirect rs)))"
proof -
  define R where "R = concat (map render_redirect rs)"
  from assms(1) have ne: "f \<noteq> []" by (simp add: token_def)
  note hd = token_hd [OF assms(1)]
  from ne hd have sk: "skip_spaces (CHR '' '' # f @ R) = f @ R"
    by (cases f) (auto simp: skip_spaces_id)
  have "redirect_round ((if i then CHR ''<'' else CHR ''>'') # CHR '' '' # f @ R) =
         (i, Some \<lparr>block_size = length f + (if rs = [] then 0 else 1), chars = f\<rparr>, tl R)"
  proof (cases "rs = []")
    case True
    then have R: "R = []" by (simp add: R_def)
    have "\<forall>k < length f. \<not> at_redirect (drop k f)"
      using token_no_redirect [OF assms(1), of _ "[]"] by simp
    with ne have "find_redirect f = (butlast f, [last f])" by (intro find_redirect_none)
    with sk ne True token_span(2) [OF assms] show ?thesis
      by (simp add: redirect_round_def filename_span_def R)
  next
    case False
    then obtain R' where R: "R = CHR '' '' # R'"
      by (cases rs) (auto simp: R_def render_redirect_def)
    from False have "at_redirect R" unfolding R_def by (rule at_redirect_rendered)
    moreover have "\<forall>k < length f. \<not> at_redirect (drop k (f @ R))"
      using token_no_redirect [OF assms(1)] by blast
    ultimately have "find_redirect (f @ R) = (f, R)" by (intro find_redirect_stop)
    with sk ne False token_span(1) [OF assms] show ?thesis
      by (simp add: redirect_round_def filename_span_def R)
  qed
  then show ?thesis unfolding R_def .
qed

lemma last_redirect_Cons:
  "last_redirect inp (r # rs) =
     (case last_redirect inp rs of
        Some f \<Rightarrow> Some f
      | None \<Rightarrow> if fst r = inp then Some (snd r) else None)"
  by (cases "filter (\<lambda>r. fst r = inp) rs") (auto simp: last_redirect_def)

lemma redirect_loop_step:
  assumes "token f" and "last f \<noteq> CHR 0x0A"
  shows "redirect_loop (CHR ''<'' # CHR '' '' # f @ concat (map render_redirect rs)) c =
         redirect_loop (tl (concat (map render_redirect rs)))
           (c\<lparr>i_stream :=
                Some \<lparr>block_size = length f + (if rs = [] then 0 else 1), chars = f\<rparr>\<rparr>)"
    and "redirect_loop (CHR ''>'' # CHR '' '' # f @ concat (map render_redirect rs)) c =
         redirect_loop (tl (concat (map render_redirect rs)))
           (c\<lparr>o_stream :=
                Some \<lparr>block_size = length f + (if rs = [] then 0 else 1), chars = f\<rparr>\<rparr>)"
proof -
  show "redirect_loop (CHR ''<'' # CHR '' '' # f @ concat (map render_redirect rs)) c =
         redirect_loop (tl (concat (map render_redirect rs)))
           (c\<lparr>i_stream :=
                Some \<lparr>block_size = length f + (if rs = [] then 0 else 1), chars = f\<rparr>\<rparr>)"
    using redirect_round_rendered [OF assms, of True rs]
    by (subst redirect_loop.simps) simp
  show "redirect_loop (CHR ''>'' # CHR '' '' # f @ concat (map render_redirect rs)) c =
         redirect_loop (tl (concat (map render_redirect rs)))
           (c\<lparr>o_stream :=
                Some \<lparr>block_size = length f + (if rs = [] then 0 else 1), chars = f\<rparr>\<rparr>)"
    using redirect_round_rendered [OF assms, of False rs]
    by (subst redirect_loop.simps) simp
qed

lemma redirect_loop_rendered:
  assumes "\<forall>r \<in> set rs. token (snd r) \<and> last (snd r) \<noteq> CHR 0x0A"
  shows "map_option chars (i_stream (redirect_loop (tl (concat (map render_redirect rs))) c)) =
           (case last_redirect True rs of
              None \<Rightarrow> map_option chars (i_stream c) | Some f \<Rightarrow> Some f)
         \<and> map_option chars (o_stream (redirect_loop (tl (concat (map render_redirect rs))) c)) =
           (case last_redirect False rs of
              None \<Rightarrow> map_option chars (o_stream c) | Some f \<Rightarrow> Some f)"
  using assms
proof (induction rs arbitrary: c)
  case Nil
  show ?case by (simp add: redirect_loop.simps [of "[]"] last_redirect_def)
next
  case (Cons r rs)
  obtain i f where r: "r = (i, f)" by (cases r)
  from Cons.prems have tf: "token f" "last f \<noteq> CHR 0x0A"
    and rest: "\<forall>r \<in> set rs. token (snd r) \<and> last (snd r) \<noteq> CHR 0x0A"
    by (simp_all add: r)
  define h where "h = \<lparr>block_size = length f + (if rs = [] then 0 else 1), chars = f\<rparr>"
  have ch: "chars h = f" by (simp add: h_def)
  show ?case
  proof (cases i)
    case True
    have s: "tl (concat (map render_redirect (r # rs))) =
             CHR ''<'' # CHR '' '' # f @ concat (map render_redirect rs)"
      by (simp add: r True render_redirect_def)
    from Cons.IH [OF rest, of "c\<lparr>i_stream := Some h\<rparr>"] show ?thesis
      unfolding s redirect_loop_step(1) [OF tf] h_def [symmetric]
      by (simp add: last_redirect_Cons r True ch split: option.splits)
  next
    case False
    have s: "tl (concat (map render_redirect (r # rs))) =
             CHR ''>'' # CHR '' '' # f @ concat (map render_redirect rs)"
      by (simp add: r False render_redirect_def)
    from Cons.IH [OF rest, of "c\<lparr>o_stream := Some h\<rparr>"] show ?thesis
      unfolding s redirect_loop_step(2) [OF tf] h_def [symmetric]
      by (simp add: last_redirect_Cons r False ch split: option.splits)
  qed
qed

text \<open>
  The file name of the last redirection ends the line: its block has no byte for the
  terminator that \<^verbatim>\<open>strcpy\<close> writes.
\<close>

lemma redirect_loop_overrun:
  assumes "\<forall>r \<in> set rs. token (snd r) \<and> last (snd r) \<noteq> CHR 0x0A" and "rs \<noteq> []"
  shows "(if fst (last rs) then i_stream else o_stream)
           (redirect_loop (tl (concat (map render_redirect rs))) c) =
         Some \<lparr>block_size = length (snd (last rs)), chars = snd (last rs)\<rparr>"
  using assms
proof (induction rs arbitrary: c)
  case Nil
  then show ?case by simp
next
  case (Cons r rs)
  obtain i f where r: "r = (i, f)" by (cases r)
  from Cons.prems have tf: "token f" "last f \<noteq> CHR 0x0A"
    and rest: "\<forall>r \<in> set rs. token (snd r) \<and> last (snd r) \<noteq> CHR 0x0A"
    by (simp_all add: r)
  define h where "h = \<lparr>block_size = length f + (if rs = [] then 0 else 1), chars = f\<rparr>"
  define c' where "c' = (if i then c\<lparr>i_stream := Some h\<rparr> else c\<lparr>o_stream := Some h\<rparr>)"
  have step: "redirect_loop (tl (concat (map render_redirect (r # rs)))) c =
              redirect_loop (tl (concat (map render_redirect rs))) c'"
    using redirect_loop_step [OF tf, of rs c]
    by (cases i) (simp_all add: r render_redirect_def c'_def h_def)
  show ?case
  proof (cases "rs = []")
    case True
    then show ?thesis
      unfolding step by (cases i) (simp_all add: r redirect_loop.simps [of "[]"] c'_def h_def)
  next
    case False
    with Cons.IH [OF rest False, of c'] show ?thesis unfolding step by simp
  qed
qed

lemma join_words_concat: "join_words (w # xs) = w @ concat (map ((#) (CHR '' '')) xs)"
  by (induction xs arbitrary: w) (auto simp: join_words_Cons)

lemma command_line_tokens:
  assumes "ws \<noteq> []"
  shows "command_line ws rs bg = join_words (line_tokens ws rs bg)"
proof -
  from assms obtain w ws' where ws: "ws = w # ws'" by (cases ws) auto
  have "concat (map ((#) (CHR '' ''))
          (concat (map (\<lambda>r. [[if fst r then CHR ''<'' else CHR ''>''], snd r]) rs))) =
        concat (map render_redirect rs)"
    by (induction rs) (auto simp: render_redirect_def)
  then show ?thesis
    by (simp add: command_line_def line_tokens_def ws join_words_concat)
qed

lemma line_tokens_solid:
  assumes "\<forall>w \<in> set ws. solid w" and "\<forall>r \<in> set rs. solid (snd r)"
  shows "\<forall>w \<in> set (line_tokens ws rs bg). solid w"
  using assms by (auto simp: line_tokens_def) (auto simp: solid_def)

lemma last_line_tokens:
  "ws \<noteq> [] \<Longrightarrow>
   last (line_tokens ws rs False) = (if rs = [] then last ws else snd (last rs))"
  by (induction rs rule: rev_induct) (auto simp: line_tokens_def)

lemma redirect_loop_short: "length s \<le> 1 \<Longrightarrow> redirect_loop s c = c"
  by (simp add: redirect_loop.simps)

lemma join_words_last: "ts \<noteq> [] \<Longrightarrow> \<exists>pre. join_words ts = pre @ last ts"
  by (induction ts rule: join_words.induct) auto

lemma ends_with_token:
  assumes "token t" and "1 < length (pre @ t) - 1"
    and "(pre @ t) ! (length (pre @ t) - 1) = CHR ''&''"
    and "(pre @ t) ! (length (pre @ t) - 1 - 1) = CHR '' ''"
  shows "t = ''&''"
proof -
  from assms(1) have ne: "t \<noteq> []" by (simp add: token_def)
  have "length t = 1"
  proof (rule ccontr)
    assume "length t \<noteq> 1"
    moreover from ne have "length t \<noteq> 0" by simp
    ultimately have l: "2 \<le> length t" by linarith
    then have "length (pre @ t) - 1 - 1 = length pre + (length t - 2)" by simp
    then have "(pre @ t) ! (length (pre @ t) - 1 - 1) = t ! (length t - 2)"
      by (simp only: nth_append_length_plus)
    moreover from l have "length t - 2 < length t" by simp
    then have "t ! (length t - 2) \<in> set t" by (rule nth_mem)
    ultimately have "CHR '' '' \<in> set t" using assms(4) by simp
    with assms(1) show False by (simp add: token_def)
  qed
  then obtain c where t: "t = [c]" by (cases t) auto
  with assms(3) show ?thesis by (simp add: nth_append)
qed

lemma parse_operands_command_line:
  assumes "ws \<noteq> []" and "\<forall>w \<in> set ws. token w" and "\<forall>w \<in> set (tl ws). \<not> operator_token w"
  shows "parse_operands (command_line ws rs False) c =
         Inr (redirect_loop (tl (concat (map render_redirect rs)))
                (c\<lparr>argv := take MAX_ARGV_SIZE ws\<rparr>))"
proof -
  let ?J = "join_words ws"
  define R where "R = concat (map render_redirect rs)"
  have W: "command_line ws rs False = ?J @ R" by (simp add: command_line_def R_def)
  from assms(2) have w: "\<forall>w \<in> set ws. w \<noteq> [] \<and> CHR '' '' \<notin> set w"
    by (simp add: token_def)
  from assms(1) w have Jne: "?J \<noteq> []" by (simp add: join_words_Nil)
  from w have tok: "tokens ?J = ws" by (rule tokens_join_words)
  with assms(1) have pa: "parse_args ?J = Inr (take MAX_ARGV_SIZE ws)"
    by (simp add: parse_args_tokens)
  show ?thesis
  proof (cases "rs = []")
    case True
    then have R: "R = []" by (simp add: R_def)
    have "\<forall>k < length ?J. \<not> at_redirect (drop k ?J)"
      using join_words_no_redirect [OF assms(2,3), of "[]"] by simp
    with Jne have fr: "find_redirect ?J = (butlast ?J, [last ?J])"
      by (intro find_redirect_none)
    from assms(1) w have "last ?J = last (last ws)" by (intro last_join_words) auto
    moreover from assms have "token (last ws)" by simp
    ultimately have "last ?J \<noteq> CHR '' ''" by (simp add: token_last)
    moreover from True have cl: "command_line ws rs False = ?J"
      by (simp add: command_line_def)
    ultimately show ?thesis
      unfolding cl using fr Jne pa True
      by (simp add: parse_operands_def redirect_loop_short)
  next
    case False
    then obtain R' where R': "R = CHR '' '' # R'"
      by (cases rs) (auto simp: R_def render_redirect_def)
    from False have ar: "at_redirect R" unfolding R_def by (rule at_redirect_rendered)
    have "\<forall>k < length ?J. \<not> at_redirect (drop k (?J @ R))"
      using join_words_no_redirect [OF assms(2,3), of R] R' by simp
    with ar have "find_redirect (?J @ R) = (?J, R)" by (intro find_redirect_stop)
    moreover from R' have "tl (concat (map render_redirect rs)) = R'" by (simp add: R_def)
    ultimately show ?thesis using pa R'
      by (simp add: W parse_operands_def)
  qed
qed

text \<open>
  The descriptor of a line whose expanded and trimmed form is a well-formed line: the
  arguments up to the cap, the background request, and for each stream the file name of
  its last redirection.
\<close>

lemma parse_command_well_formed_eq:
  assumes "well_formed ws rs bg" and "fits pid s"
    and "trimmed_line pid s = command_line ws rs bg"
  shows "parse_command pid s =
         Inr (Some (redirect_loop (tl (concat (map render_redirect rs)))
                      (create_command_struct
                         \<lparr>background := bg, argv := take MAX_ARGV_SIZE ws\<rparr>)))"
proof -
  define W where "W = command_line ws rs False"
  define L where "L = command_line ws rs bg"
  define S where "S = tl (concat (map render_redirect rs))"
  from assms(1) have ws: "ws \<noteq> []" and tw: "\<forall>w \<in> set ws. token w"
    and hash: "hd (hd ws) \<noteq> CHR ''#''" and ops: "\<forall>w \<in> set (tl ws). \<not> operator_token w"
    and tr: "\<forall>r \<in> set rs. token (snd r) \<and> last (snd r) \<noteq> CHR 0x0A"
    and amp: "\<not> bg \<longrightarrow> last (line_tokens ws rs False) \<noteq> ''&''"
    by (simp_all add: well_formed_def)
  have L: "L = W @ (if bg then '' &'' else [])"
    by (simp add: L_def W_def command_line_def)
  have tt: "\<forall>t \<in> set (line_tokens ws rs False). token t"
    using tw tr by (auto simp: line_tokens_def token_def split: if_splits)
  have tne: "line_tokens ws rs False \<noteq> []" using ws by (simp add: line_tokens_def)
  have Wj: "W = join_words (line_tokens ws rs False)"
    unfolding W_def by (rule command_line_tokens [OF ws])
  have Wne: "W \<noteq> []"
    unfolding Wj using tt tne by (subst join_words_Nil) (auto simp: token_def)
  obtain w ws' where wss: "ws = w # ws'" using ws by (cases ws) auto
  with tw have "w \<noteq> []" by (simp add: token_def)
  then have "hd W = hd w"
    by (simp add: W_def command_line_def wss join_words_Cons)
  with Wne hash have hdL: "hd L \<noteq> CHR ''#''" and Lne: "L \<noteq> []"
    by (auto simp: L wss)
  have bgr: "background_requested L \<longleftrightarrow> bg"
  proof (cases bg)
    case True
    with Wne show ?thesis
      by (cases W) (auto simp: L background_requested_def nth_append)
  next
    case False
    have "\<not> background_requested W"
    proof
      assume b: "background_requested W"
      from tne obtain pre where pre: "W = pre @ last (line_tokens ws rs False)"
        unfolding Wj using join_words_last by blast
      from tt tne have "token (last (line_tokens ws rs False))" by simp
      then have "last (line_tokens ws rs False) = ''&''"
        using b unfolding pre background_requested_def Let_def
        by (intro ends_with_token [of _ pre]) auto
      with amp False show False by simp
    qed
    with False show ?thesis by (simp add: L)
  qed
  have cut: "bg \<Longrightarrow> take (length L - 2) L = W" by (simp add: L)
  have po: "parse_operands W c = Inr (redirect_loop S (c\<lparr>argv := take MAX_ARGV_SIZE ws\<rparr>))"
    for c unfolding W_def S_def using ws tw ops by (rule parse_operands_command_line)
  define d where
    "d = redirect_loop S (create_command_struct\<lparr>background := bg, argv := take MAX_ARGV_SIZE ws\<rparr>)"
  have pc: "parse_command pid s =
      (if L = [] \<or> hd L = CHR ''#'' then Inr None
       else case (if background_requested L
                  then parse_operands (take (length L - 2) L)
                         (create_command_struct\<lparr>background := True\<rparr>)
                  else parse_operands L create_command_struct)
            of Inl f \<Rightarrow> Inl f | Inr d \<Rightarrow> Inr (Some d))"
    unfolding parse_command_trimmed [OF assms(2)] assms(3) L_def Let_def by (rule refl)
  have "parse_command pid s = Inr (Some d)"
  proof (cases bg)
    case True
    with hdL Lne bgr cut po show ?thesis
      unfolding pc by (simp add: d_def)
  next
    case False
    then have "L = W" by (simp add: L)
    with False hdL Lne bgr po show ?thesis
      unfolding pc by (simp add: d_def create_command_struct_def)
  qed
  then show ?thesis unfolding d_def S_def .
qed

lemma parse_command_well_formed:
  assumes "well_formed ws rs bg" and "fits pid s"
    and "trimmed_line pid s = command_line ws rs bg"
  shows "\<exists>d. parse_command pid s = Inr (Some d) \<and> argv d = take MAX_ARGV_SIZE ws \<and>
             background d = bg \<and>
             map_option chars (i_stream d) = last_redirect True rs \<and>
             map_option chars (o_stream d) = last_redirect False rs"
proof -
  define d where
    "d = redirect_loop (tl (concat (map render_redirect rs)))
           (create_command_struct\<lparr>background := bg, argv := take MAX_ARGV_SIZE ws\<rparr>)"
  from assms(1) have tr: "\<forall>r \<in> set rs. token (snd r) \<and> last (snd r) \<noteq> CHR 0x0A"
    by (simp add: well_formed_def)
  have "parse_command pid s = Inr (Some d)"
    unfolding d_def using assms by (rule parse_command_well_formed_eq)
  moreover have "argv d = take MAX_ARGV_SIZE ws" "background d = bg"
    by (simp_all add: d_def redirect_loop_argv redirect_loop_background
          create_command_struct_def)
  moreover have "map_option chars (i_stream d) = last_redirect True rs"
    "map_option chars (o_stream d) = last_redirect False rs"
    unfolding d_def
    using redirect_loop_rendered [OF tr,
        of "create_command_struct\<lparr>background := bg, argv := take MAX_ARGV_SIZE ws\<rparr>"]
    by (simp_all add: create_command_struct_def split: option.splits)
  ultimately show ?thesis by blast
qed

text \<open>
  On such a line with a redirection, the block of the last file name is overrun: every
  line with a redirection that \<^verbatim>\<open>fgets\<close> can deliver ends with a file name.
\<close>

lemma parse_command_well_formed_overrun:
  assumes "well_formed ws rs bg" and "fits pid s"
    and "trimmed_line pid s = command_line ws rs bg" and "rs \<noteq> []"
  shows "\<exists>d h. parse_command pid s = Inr (Some d) \<and>
               (if fst (last rs) then i_stream d else o_stream d) = Some h \<and>
               chars h = snd (last rs) \<and> overrun h"
proof -
  from assms(1) have tr: "\<forall>r \<in> set rs. token (snd r) \<and> last (snd r) \<noteq> CHR 0x0A"
    by (simp add: well_formed_def)
  define d where
    "d = redirect_loop (tl (concat (map render_redirect rs)))
           (create_command_struct\<lparr>background := bg, argv := take MAX_ARGV_SIZE ws\<rparr>)"
  define h where "h = \<lparr>block_size = length (snd (last rs)), chars = snd (last rs)\<rparr>"
  have "parse_command pid s = Inr (Some d)"
    unfolding d_def using assms(1,2,3) by (rule parse_command_well_formed_eq)
  moreover have "(if fst (last rs) then i_stream d else o_stream d) = Some h"
    unfolding d_def h_def
    using redirect_loop_overrun [OF tr assms(4),
        of "create_command_struct\<lparr>background := bg, argv := take MAX_ARGV_SIZE ws\<rparr>"]
    by (cases "fst (last rs)") simp_all
  moreover have "chars h = snd (last rs)" "overrun h" by (simp_all add: h_def overrun_def)
  ultimately show ?thesis by blast
qed

text \<open>A well-formed line of solid tokens is its own expanded and trimmed form.\<close>

lemma trimmed_command_line:
  assumes "ws \<noteq> []" and "\<forall>w \<in> set ws. solid w" and "\<forall>r \<in> set rs. solid (snd r)"
  shows "trimmed_line pid (command_line ws rs bg) = command_line ws rs bg"
    and "expand pid (command_line ws rs bg) = command_line ws rs bg"
proof -
  have sol: "\<forall>w \<in> set (line_tokens ws rs bg). solid w"
    using assms(2,3) by (rule line_tokens_solid)
  have tne: "line_tokens ws rs bg \<noteq> []" using assms(1) by (simp add: line_tokens_def)
  show "trimmed_line pid (command_line ws rs bg) = command_line ws rs bg"
    unfolding command_line_tokens [OF assms(1)]
    using tne sol by (rule trimmed_line_join_words)
  show "expand pid (command_line ws rs bg) = command_line ws rs bg"
    unfolding command_line_tokens [OF assms(1)]
    using tne sol by (rule expand_join_words)
qed

lemma parse_command_command_line:
  assumes "well_formed ws rs bg" and "\<forall>w \<in> set ws. solid w" and "\<forall>r \<in> set rs. solid (snd r)"
    and "length (command_line ws rs bg) < MAX_INPUT_CHARS_SIZE"
  shows "\<exists>d. parse_command pid (command_line ws rs bg) = Inr (Some d) \<and>
             argv d = take MAX_ARGV_SIZE ws \<and> background d = bg \<and>
             map_option chars (i_stream d) = last_redirect True rs \<and>
             map_option chars (o_stream d) = last_redirect False rs"
proof -
  from assms(1) have ws: "ws \<noteq> []" by (simp add: well_formed_def)
  note t = trimmed_command_line [OF ws assms(2,3), of pid bg]
  from t(2) assms(4) have "fits pid (command_line ws rs bg)" by (simp add: fits_def)
  with assms(1) show ?thesis using t(1) by (rule parse_command_well_formed)
qed

lemma join_words_replicate:
  "join_words (replicate (Suc n) w) = concat (replicate n (w @ '' '')) @ w"
  by (induction n) (auto simp: join_words_Cons)

lemma solid_a: "solid ''a''"
  by (simp add: solid_def)
subsection \<open>A stored path is never blank\<close>







section \<open>Properties of the process\<close>

subsection \<open>What the steps leave unchanged\<close>

lemmas output_defs = put_def put_err_def sys_write_def perror_def handle_exec_error_def
  handle_fork_error_def handle_path_error_def handle_file_error_def

lemma same_control_refl: "same_control st st"
  by (simp add: same_control_def)

lemma same_control_trans:
  "same_control a b \<Longrightarrow> same_control b c \<Longrightarrow> same_control a c"
  by (simp add: same_control_def)

lemma same_control_output:
  "same_control st (put t st)" "same_control st (put_err t st)"
  "same_control st (perror sys t st)" "same_control st (handle_fork_error sys st)"
  "same_control st (handle_path_error st)"
  "same_control st (handle_file_error sys f b st)"
  "same_control st (builtin_status st)"
  by (simp_all add: same_control_def output_defs builtin_status_def)

lemma same_control_open:
  "same_control st (snd (sys_open sys p f st))"
  "same_control st (sys_close fd st)"
  "same_control st (snd (open_input sys i bg st))"
  "same_control st (snd (open_output sys out bg st))"
  by (simp_all add: same_control_def sys_open_def sys_close_def open_input_def
        open_output_def Let_def split: option.splits)

lemma same_control_parent_branch:
  "same_control st (parent_branch sys pid args ifd ofd bg st)"
  by (simp add: same_control_def parent_branch_def Let_def output_defs builtin_status_def)

lemma same_control_data: "same_control st st' \<Longrightarrow> same_data st st'"
  by (simp add: same_control_def same_data_def)

lemma child_branch_frame:
  "same_data st (child_branch sys args ifd ofd bg st)"
  "halted (child_branch sys args ifd ofd bg st) \<noteq> None"
  by (simp_all add: same_data_def child_branch_def Let_def set_child_signal_handlers_def
        exit_process_def output_defs)

lemma run_command_frame:
  "same_data st (run_command sys args i out bg st)"
  "same_control st (run_command sys args i out bg st) \<or>
   (os_fork sys = 0 \<and> halted (run_command sys args i out bg st) \<noteq> None)"
proof -
  obtain ifd st1 where oi: "open_input sys i bg st = (ifd, st1)"
    by (cases "open_input sys i bg st")
  obtain ofd st2 where oo: "open_output sys out bg st1 = (ofd, st2)"
    by (cases "open_output sys out bg st1")
  have s1: "same_control st st1" using same_control_open(3) [of st sys i bg] oi by simp
  have s2: "same_control st1 st2" using same_control_open(4) [of st1 sys out bg] oo by simp
  have s12: "same_control st st2" using s1 s2 by (rule same_control_trans)
  have a: "same_control st ((handle_file_error sys n b st1)\<lparr>exit_status := 1\<rparr>)" for n b
    using s1 same_control_output(6) [of st1 sys n b] by (simp add: same_control_def)
  have b: "same_control st
     ((handle_file_error sys n b (if ifd \<noteq> STDIN_FILENO then sys_close ifd st2 else st2))
        \<lparr>exit_status := 1\<rparr>)" for n b
    using s12 same_control_output(6) [of _ sys n b] same_control_open(2) [of st2 ifd]
    by (simp add: same_control_def)
  have c: "same_control st (handle_fork_error sys st2)"
    using s12 same_control_output(4) [of st2 sys] by (rule same_control_trans)
  have d: "same_control st (parent_branch sys (os_fork sys) args ifd ofd bg st2)"
    using s12 same_control_parent_branch by (rule same_control_trans)
  have e: "same_data st (child_branch sys args ifd ofd bg st2)"
    using s12 child_branch_frame(1) [of st2 sys args ifd ofd bg]
    by (simp add: same_control_def same_data_def)
  show "same_data st (run_command sys args i out bg st)"
    using a b c d e by (auto simp: run_command_def oi oo Let_def intro: same_control_data)
  show "same_control st (run_command sys args i out bg st) \<or>
   (os_fork sys = 0 \<and> halted (run_command sys args i out bg st) \<noteq> None)"
    using a b c d child_branch_frame(2) [of sys args ifd ofd bg st2]
    by (simp add: run_command_def oi oo Let_def)
qed

lemma same_control_builtin_cd: "same_control st (builtin_cd sys args st)"
  by (simp add: same_control_def builtin_cd_def output_defs split: option.splits list.splits)

lemma dispatch_frame:
  assumes "argv d \<noteq> []"
  shows "foreground_flag (dispatch sys d st) = foreground_flag st"
    and "input_buffer (dispatch sys d st) = input_buffer st"
    and "stdin_indicator (dispatch sys d st) = stdin_indicator st"
    and "exit_triggered (dispatch sys d st) \<longleftrightarrow> exit_triggered st \<or> hd (argv d) = ''exit''"
    and "(halted (dispatch sys d st) = halted st \<and> sigaction (dispatch sys d st) = sigaction st)
         \<or> (os_fork sys = 0 \<and> halted (dispatch sys d st) \<noteq> None)"
proof -
  from assms obtain name rest where a: "argv d = name # rest" by (cases "argv d") auto
  define st' where "st' = dispatch sys d st"
  consider (exit) "name = ''exit''" | (cd) "name = ''cd''" | (status) "name = ''status''"
    | (other) "name \<noteq> ''exit''" "name \<noteq> ''cd''" "name \<noteq> ''status''" by blast
  then have "foreground_flag st' = foreground_flag st \<and> input_buffer st' = input_buffer st
      \<and> stdin_indicator st' = stdin_indicator st
      \<and> (exit_triggered st' \<longleftrightarrow> exit_triggered st \<or> name = ''exit'')
      \<and> ((halted st' = halted st \<and> sigaction st' = sigaction st)
         \<or> (os_fork sys = 0 \<and> halted st' \<noteq> None))"
  proof cases
    case exit
    then show ?thesis by (simp add: st'_def dispatch_def a)
  next
    case cd
    with same_control_builtin_cd [of st sys "argv d"] show ?thesis
      by (simp add: st'_def dispatch_def a same_control_def)
  next
    case status
    with same_control_output(7) [of st] show ?thesis
      by (simp add: st'_def dispatch_def a same_control_def)
  next
    case other
    with run_command_frame [of st sys "argv d" "map_option chars (i_stream d)"
      "map_option chars (o_stream d)" "background d \<and> get_foreground_flag st \<noteq> 1"]
    show ?thesis
      by (auto simp: st'_def dispatch_def a same_control_def same_data_def)
  qed
  then show "foreground_flag (dispatch sys d st) = foreground_flag st"
    and "input_buffer (dispatch sys d st) = input_buffer st"
    and "stdin_indicator (dispatch sys d st) = stdin_indicator st"
    and "exit_triggered (dispatch sys d st) \<longleftrightarrow> exit_triggered st \<or> hd (argv d) = ''exit''"
    and "(halted (dispatch sys d st) = halted st \<and> sigaction (dispatch sys d st) = sigaction st)
         \<or> (os_fork sys = 0 \<and> halted (dispatch sys d st) \<noteq> None)"
    by (simp_all add: st'_def a)
qed

lemma same_core_trans: "same_core a b \<Longrightarrow> same_core b c \<Longrightarrow> same_core a c"
  by (simp add: same_core_def)

lemma same_control_core: "same_control st st' \<Longrightarrow> same_core st st'"
  by (simp add: same_control_def same_core_def)

lemma same_core_write:
  "same_core st (put t st)" "same_core st (sys_write b k st)" "same_core st (write_int v st)"
  by (simp_all add: same_core_def write_int_def sys_write_def put_def Let_def)

lemma same_core_report_child: "same_core st (report_child p s st)"
  by (simp add: same_core_def report_child_def write_int_def sys_write_def put_def Let_def)

lemma same_core_reap: "same_core st (reap out zs st)"
proof (induction out zs st rule: reap.induct)
  case (1 out st)
  show ?case by (simp add: same_core_def)
next
  case (2 out p s rest st)
  show ?case
  proof (cases "0 < p")
    case False
    then show ?thesis by (simp add: same_core_def)
  next
    case True
    have "same_core st (if out then report_child p s st else st)"
      using same_core_report_child [of st p s] by (simp add: same_core_def)
    with 2 [OF True] True show ?thesis by (auto intro: same_core_trans)
  qed
qed

lemma reap_no_output: "stdout (reap False zs st) = stdout st"
  by (induction zs arbitrary: st) auto

lemma reap_all: "\<forall>z \<in> set zs. 0 < fst z \<Longrightarrow> zombies (reap out zs st) = []"
  by (induction out zs st rule: reap.induct) auto

lemma same_core_run_handler_SIGCHLD:
  assumes "sigaction st SIGCHLD = SIGCHLD_handler \<or>
           sigaction st SIGCHLD = SIGCHLD_handler_no_output"
  shows "same_core st (run_handler SIGCHLD st)"
  using assms same_core_reap [of st _ "zombies st"]
  by (auto simp: run_handler_def SIGCHLD_handler_body_def SIGCHLD_handler_no_output_body_def)

lemma same_core_sigprocmask_unblock:
  assumes "sigaction st SIGCHLD = SIGCHLD_handler \<or>
           sigaction st SIGCHLD = SIGCHLD_handler_no_output"
  shows "same_core st (sigprocmask_unblock st)"
proof -
  define st1 where "st1 = st\<lparr>sigchld_blocked := False, sigchld_pending := False\<rparr>"
  have a: "same_core st st1" by (simp add: st1_def same_core_def)
  from assms have "sigaction st1 SIGCHLD = SIGCHLD_handler \<or>
           sigaction st1 SIGCHLD = SIGCHLD_handler_no_output" by (simp add: st1_def)
  then have "same_core st1 (run_handler SIGCHLD st1)" by (rule same_core_run_handler_SIGCHLD)
  with a have "same_core st (run_handler SIGCHLD st1)" by (rule same_core_trans)
  with a show ?thesis
    unfolding sigprocmask_unblock_def Let_def st1_def [symmetric] by simp
qed


text \<open>
  The parser faults on the lines that do not fit its buffer, and on no other line: the
  \<^verbatim>\<open>strlen(NULL)\<close> of \<^verbatim>\<open>parse_args\<close> is never reached.
\<close>

lemma parse_command_faults:
  "(\<exists>f. parse_command pid s = Inl f) \<longleftrightarrow> \<not> fits pid s"
  "parse_command pid s = Inl f \<Longrightarrow> f = Buffer_overflow"
proof -
  have fit: "\<nexists>f. parse_command pid s = Inl f" if "fits pid s"
  proof (cases "trimmed_line pid s = [] \<or> hd (trimmed_line pid s) = CHR ''#''")
    case True
    with that show ?thesis by (simp add: parse_command_blank)
  next
    case False
    from parse_command_descriptor [OF that this] show ?thesis by auto
  qed
  then show "(\<exists>f. parse_command pid s = Inl f) \<longleftrightarrow> \<not> fits pid s"
    using parse_command_overflow [of pid s] by auto
  assume "parse_command pid s = Inl f"
  with fit parse_command_overflow [of pid s] show "f = Buffer_overflow"
    by (cases "fits pid s") auto
qed

lemma parse_command_argv:
  assumes "parse_command pid s = Inr (Some d)"
  shows "argv d \<noteq> []"
proof -
  from assms have fit: "fits pid s" using parse_command_overflow [of pid s] by auto
  show ?thesis
  proof (cases "trimmed_line pid s = [] \<or> hd (trimmed_line pid s) = CHR ''#''")
    case True
    with assms fit show ?thesis by (simp add: parse_command_blank)
  next
    case False
    from parse_command_descriptor [OF fit this] assms show ?thesis by auto
  qed
qed

lemma main_iteration_facts:
  assumes "interpreter st"
  shows "foreground_flag (main_iteration sys line st) = foreground_flag st"
    and "input_buffer (main_iteration sys line st) =
           (case line of None \<Rightarrow> input_buffer st | Some l \<Rightarrow> l)"
    and "stdin_indicator (main_iteration sys line st) =
           (case line of None \<Rightarrow> False | Some l \<Rightarrow> stdin_indicator st)"
    and "exit_triggered (main_iteration sys line st) \<longleftrightarrow>
           exit_triggered st \<or>
           (\<exists>d. parse_command (os_getpid sys)
                  (case line of None \<Rightarrow> input_buffer st | Some l \<Rightarrow> l) = Inr (Some d)
                \<and> hd (argv d) = ''exit'')"
    and "halted (main_iteration sys line st) = None \<longrightarrow>
           sigaction (main_iteration sys line st) = sigaction st"
    and "os_fork sys \<noteq> 0 \<longrightarrow>
           halted (main_iteration sys line st) =
             (if fits (os_getpid sys) (case line of None \<Rightarrow> input_buffer st | Some l \<Rightarrow> l)
              then None else Some (Faulted Buffer_overflow))"
proof -
  define buf where "buf = (case line of None \<Rightarrow> input_buffer st | Some l \<Rightarrow> l)"
  define st1 where "st1 = put '': '' (sigprocmask_block st)"
  define st2 where "st2 = read_line line st1"
  define st3 where "st3 = (case parse_command (os_getpid sys) (input_buffer st2) of
                   Inl f \<Rightarrow> st2\<lparr>halted := Some (Faulted f)\<rparr>
                 | Inr None \<Rightarrow> st2
                 | Inr (Some parsed_command) \<Rightarrow> dispatch sys parsed_command st2)"
  define mi where "mi = main_iteration sys line st"
  have mi: "mi = (if halted st3 \<noteq> None then st3 else usleep 5000 (sigprocmask_unblock st3))"
    unfolding mi_def main_iteration_def st3_def st2_def st1_def Let_def by (rule refl)
  from assms have running: "halted st = None"
    and chld: "sigaction st SIGCHLD = SIGCHLD_handler \<or>
               sigaction st SIGCHLD = SIGCHLD_handler_no_output"
    by (simp_all add: interpreter_def)
  have st2: "foreground_flag st2 = foreground_flag st" "sigaction st2 = sigaction st"
    "halted st2 = None" "input_buffer st2 = buf"
    "stdin_indicator st2 = (case line of None \<Rightarrow> False | Some l \<Rightarrow> stdin_indicator st)"
    "exit_triggered st2 = exit_triggered st"
    using running
    by (simp_all add: st2_def st1_def buf_def read_line_def put_def sigprocmask_block_def
          split: option.splits)
  have st3: "foreground_flag st3 = foreground_flag st \<and> input_buffer st3 = buf
      \<and> stdin_indicator st3 = stdin_indicator st2
      \<and> (exit_triggered st3 \<longleftrightarrow> exit_triggered st \<or>
           (\<exists>d. parse_command (os_getpid sys) buf = Inr (Some d) \<and> hd (argv d) = ''exit''))
      \<and> ((fits (os_getpid sys) buf \<and> halted st3 = None \<and> sigaction st3 = sigaction st)
         \<or> (os_fork sys = 0 \<and> halted st3 \<noteq> None)
         \<or> (\<not> fits (os_getpid sys) buf \<and> halted st3 = Some (Faulted Buffer_overflow)))"
  proof (cases "parse_command (os_getpid sys) buf")
    case (Inl f)
    with parse_command_faults(1) [of "os_getpid sys" buf] parse_command_faults(2) [OF Inl]
    have "f = Buffer_overflow" "\<not> fits (os_getpid sys) buf" by auto
    with Inl st2 show ?thesis by (simp add: st3_def)
  next
    case (Inr r)
    with parse_command_faults(1) [of "os_getpid sys" buf]
    have fit: "fits (os_getpid sys) buf" by auto
    show ?thesis
    proof (cases r)
      case None
      with Inr st2 fit show ?thesis by (simp add: st3_def)
    next
      case (Some d)
      with Inr have "argv d \<noteq> []" by (auto dest: parse_command_argv)
      from dispatch_frame [OF this, of sys st2] Inr Some st2 fit show ?thesis
        by (simp add: st3_def)
    qed
  qed
  have fin: "same_core st3 (usleep 5000 (sigprocmask_unblock st3))" if "halted st3 = None"
  proof -
    from that st3 chld have "sigaction st3 SIGCHLD = SIGCHLD_handler \<or>
               sigaction st3 SIGCHLD = SIGCHLD_handler_no_output" by auto
    then have "same_core st3 (sigprocmask_unblock st3)"
      by (rule same_core_sigprocmask_unblock)
    then show ?thesis by (simp add: same_core_def usleep_def)
  qed
  have all: "foreground_flag mi = foreground_flag st \<and> input_buffer mi = buf
      \<and> stdin_indicator mi = stdin_indicator st2
      \<and> (exit_triggered mi \<longleftrightarrow> exit_triggered st \<or>
           (\<exists>d. parse_command (os_getpid sys) buf = Inr (Some d) \<and> hd (argv d) = ''exit''))
      \<and> (halted mi = None \<longrightarrow> sigaction mi = sigaction st)
      \<and> (os_fork sys \<noteq> 0 \<longrightarrow>
           halted mi = (if fits (os_getpid sys) buf then None
                        else Some (Faulted Buffer_overflow)))"
  proof (cases "halted st3 = None")
    case True
    with fin st3 show ?thesis by (auto simp: mi same_core_def)
  next
    case False
    with st3 show ?thesis by (auto simp: mi)
  qed
  with st2 show "foreground_flag (main_iteration sys line st) = foreground_flag st"
    and "input_buffer (main_iteration sys line st) =
           (case line of None \<Rightarrow> input_buffer st | Some l \<Rightarrow> l)"
    and "stdin_indicator (main_iteration sys line st) =
           (case line of None \<Rightarrow> False | Some l \<Rightarrow> stdin_indicator st)"
    and "exit_triggered (main_iteration sys line st) \<longleftrightarrow>
           exit_triggered st \<or>
           (\<exists>d. parse_command (os_getpid sys)
                  (case line of None \<Rightarrow> input_buffer st | Some l \<Rightarrow> l) = Inr (Some d)
                \<and> hd (argv d) = ''exit'')"
    and "halted (main_iteration sys line st) = None \<longrightarrow>
           sigaction (main_iteration sys line st) = sigaction st"
    and "os_fork sys \<noteq> 0 \<longrightarrow>
           halted (main_iteration sys line st) =
             (if fits (os_getpid sys) (case line of None \<Rightarrow> input_buffer st | Some l \<Rightarrow> l)
              then None else Some (Faulted Buffer_overflow))"
    by (simp_all add: mi_def [symmetric] buf_def [symmetric])
qed

subsection \<open>The toggle signal and the other steps\<close>

lemma length_messages: "length enter_message = 52" "length exit_message = 32"
  by (simp_all add: enter_message_def exit_message_def)

lemma interpreter_setup: "interpreter (setup_shell (initial_shell dir buf))"
  by (simp add: interpreter_def setup_shell_def setsid_def set_initial_signal_handlers_def
        set_SIGTSTP_handler_def initial_shell_def Let_def)

lemma deliver_SIGTSTP:
  assumes "interpreter st"
  shows "foreground_flag (deliver SIGTSTP st) = 1 - foreground_flag st"
    and "stdout (deliver SIGTSTP st) =
           stdout st @ (if foreground_flag st = 0 then enter_message else exit_message)"
    and "interpreter (deliver SIGTSTP st)"
  using assms length_messages
  by (auto simp: interpreter_def deliver_def run_handler_def
        SIGTSTP_handler_normal_mode_body_def SIGTSTP_handler_foreground_only_mode_body_def
        set_SIGTSTP_handler_def sys_write_def put_def)

lemma interpreter_same_core:
  "interpreter st \<Longrightarrow> same_core st st' \<Longrightarrow> interpreter st'"
  by (simp add: interpreter_def same_core_def)

lemma deliver_other:
  assumes "interpreter st" and "sig \<noteq> SIGTSTP"
  shows "foreground_flag (deliver sig st) = foreground_flag st"
    and "halted (deliver sig st) = None \<longrightarrow> interpreter (deliver sig st)"
proof -
  have "foreground_flag (deliver sig st) = foreground_flag st
      \<and> (halted (deliver sig st) = None \<longrightarrow> interpreter (deliver sig st))"
  proof (cases sig)
    case SIGTSTP
    with assms(2) show ?thesis by simp
  next
    case SIGCHLD
    from assms(1) have "sigaction st SIGCHLD = SIGCHLD_handler \<or>
           sigaction st SIGCHLD = SIGCHLD_handler_no_output" by (simp add: interpreter_def)
    then have c: "same_core st (run_handler SIGCHLD st)"
      by (rule same_core_run_handler_SIGCHLD)
    have p: "same_core st (st\<lparr>sigchld_pending := True\<rparr>)" by (simp add: same_core_def)
    from c p assms(1) SIGCHLD show ?thesis
      by (auto simp: deliver_def same_core_def intro: interpreter_same_core)
  next
    case SIGINT
    with assms(1) show ?thesis by (simp add: deliver_def run_handler_def interpreter_def)
  next
    case SIGTERM
    with assms(1) show ?thesis by (auto simp: deliver_def run_handler_def interpreter_def)
  qed
  then show "foreground_flag (deliver sig st) = foreground_flag st"
    and "halted (deliver sig st) = None \<longrightarrow> interpreter (deliver sig st)" by simp_all
qed

lemma interpreter_zombies: "interpreter (st\<lparr>zombies := zs\<rparr>) = interpreter st"
  by (simp add: interpreter_def)

lemma builtin_exit_running:
  assumes "halted st = None"
  shows "kill_group SIGTERM (set_cleanup_signal_handlers st) =
           (set_cleanup_signal_handlers st)\<lparr>calls := calls st @ [Kill_group SIGTERM]\<rparr>"
    and "builtin_exit st =
           exit_process 0 (usleep 5000 (kill_group SIGTERM (set_cleanup_signal_handlers st)))"
  using assms
  by (simp_all add: builtin_exit_def kill_group_def deliver_def run_handler_def
        set_cleanup_signal_handlers_def Let_def)

lemma perform_other:
  assumes "interpreter st" and "step \<noteq> Deliver SIGTSTP"
  shows "foreground_flag (perform step st) = foreground_flag st
       \<and> (halted (perform step st) = None \<longrightarrow> interpreter (perform step st))"
proof (cases step)
  case (Deliver sig)
  with assms deliver_other [of st sig] show ?thesis by auto
next
  case (Child_terminates pid status)
  from assms(1) have "interpreter (st\<lparr>zombies := zombies st @ [(pid, status)]\<rparr>)"
    by (simp add: interpreter_zombies)
  from deliver_other [OF this, of SIGCHLD] Child_terminates show ?thesis
    by (simp add: child_terminates_def)
next
  case (Main_iteration sys line)
  from main_iteration_facts(1,5) [OF assms(1), of sys line] assms(1) Main_iteration
  show ?thesis by (auto simp: interpreter_def)
next
  case Builtin_exit
  from assms(1) have "halted st = None" by (simp add: interpreter_def)
  from builtin_exit_running [OF this] Builtin_exit show ?thesis
    by (simp add: exit_process_def usleep_def set_cleanup_signal_handlers_def)
qed


subsection \<open>The control loop and the launcher\<close>







lemma run_command_open_failure:
  assumes "fst (open_input sys i bg st) = - 1 \<or>
           fst (open_output sys out bg (snd (open_input sys i bg st))) = - 1"
  shows "exit_status (run_command sys args i out bg st) = 1"
    and "by_signal (run_command sys args i out bg st) = by_signal st"
    and "children (run_command sys args i out bg st) = children st"
    and "(\<forall>path flags. os_open sys path flags \<noteq> STDIN_FILENO) \<longrightarrow>
         open_fds (run_command sys args i out bg st) = open_fds st"
proof -
  obtain ifd st1 where oi: "open_input sys i bg st = (ifd, st1)"
    by (cases "open_input sys i bg st")
  obtain ofd st2 where oo: "open_output sys out bg st1 = (ofd, st2)"
    by (cases "open_output sys out bg st1")
  have i1: "by_signal st1 = by_signal st" "children st1 = children st"
    "open_fds st1 = (if ifd = - 1 \<or> (i = None \<and> \<not> bg) then open_fds st else ifd # open_fds st)"
    "(\<forall>path flags. os_open sys path flags \<noteq> STDIN_FILENO) \<and> ifd = STDIN_FILENO
       \<longrightarrow> i = None \<and> \<not> bg"
    "i = None \<and> \<not> bg \<longrightarrow> ifd = STDIN_FILENO"
    using oi
    by (auto simp: open_input_def sys_open_def Let_def STDIN_FILENO_def
          split: option.splits if_splits)
  have i2: "by_signal st2 = by_signal st1" "children st2 = children st1"
    "ofd = - 1 \<longrightarrow> open_fds st2 = open_fds st1"
    using oo
    by (auto simp: open_output_def sys_open_def Let_def STDOUT_FILENO_def
          split: option.splits if_splits)
  have rc: "run_command sys args i out bg st =
      (if ifd = - 1
       then (handle_file_error sys (case i of None \<Rightarrow> ''/dev/null'' | Some f \<Rightarrow> f) True st1)
              \<lparr>exit_status := 1\<rparr>
       else (handle_file_error sys (case out of None \<Rightarrow> ''/dev/null'' | Some f \<Rightarrow> f) False
               (if ifd \<noteq> STDIN_FILENO then sys_close ifd st2 else st2))\<lparr>exit_status := 1\<rparr>)"
    using assms by (auto simp: run_command_def oi oo Let_def)
  show "exit_status (run_command sys args i out bg st) = 1"
    unfolding rc by (simp add: output_defs)
  show "by_signal (run_command sys args i out bg st) = by_signal st"
    unfolding rc using i1(1) i2(1) by (simp add: output_defs sys_close_def)
  show "children (run_command sys args i out bg st) = children st"
    unfolding rc using i1(2) i2(2) by (simp add: output_defs sys_close_def)
  show "(\<forall>path flags. os_open sys path flags \<noteq> STDIN_FILENO) \<longrightarrow>
         open_fds (run_command sys args i out bg st) = open_fds st"
  proof
    assume never: "\<forall>path flags. os_open sys path flags \<noteq> STDIN_FILENO"
    show "open_fds (run_command sys args i out bg st) = open_fds st"
    proof (cases "ifd = - 1")
      case True
      with i1(3) show ?thesis unfolding rc by (simp add: output_defs)
    next
      case False
      with assms oi oo have o: "ofd = - 1" by simp
      with i2(3) have fds: "open_fds st2 = open_fds st1" by simp
      show ?thesis
      proof (cases "ifd = STDIN_FILENO")
        case True
        with never i1(4) have "i = None \<and> \<not> bg" by simp
        with i1(3) fds True False show ?thesis unfolding rc by (simp add: output_defs)
      next
        case stdin: False
        with i1(5) have "\<not> (i = None \<and> \<not> bg)" by blast
        with i1(3) False have "open_fds st1 = ifd # open_fds st" by simp
        with fds stdin False show ?thesis unfolding rc by (simp add: output_defs sys_close_def)
      qed
    qed
  qed
qed

subsection \<open>Lines that fit the buffer, and lines that do not\<close>

lemma replace_dollars_replicate:
  "replace_dollars p (concat (replicate n ''$$'') @ t) = concat (replicate n p) @ replace_dollars p t"
  by (induction n) simp_all

lemma replace_dollars_prefix:
  "CHR ''$'' \<notin> set a \<Longrightarrow> replace_dollars p (a @ x) = a @ replace_dollars p x"
proof (induction a)
  case Nil
  show ?case by simp
next
  case (Cons c a)
  then have "c \<noteq> CHR ''$''" by auto
  with Cons show ?case by (simp add: replace_dollars_other)
qed

lemma set_dollars: "set (concat (replicate n ''$$'')) \<subseteq> {CHR ''$''}"
  by (induction n) auto

lemma expand_dollars:
  assumes "CHR '' '' \<notin> set a" and "CHR ''$'' \<notin> set a" and "CHR 0x00 \<notin> set a"
    and "CHR 0x00 \<notin> set b" and "\<not> twice (CHR '' '') b" and "\<not> twice (CHR ''$'') b"
    and "a \<noteq> [] \<or> 0 < n"
  shows "expand_loop p (a @ concat (replicate n ''$$'') @ b) = a @ concat (replicate n p) @ b"
proof -
  let ?D = "concat (replicate n ''$$'')"
  let ?s = "a @ ?D @ b"
  from set_dollars [of n] have D: "CHR '' '' \<notin> set ?D" "CHR 0x00 \<notin> set ?D" by auto
  from assms(3,4) D have "CHR 0x00 \<notin> set ?s" by simp
  then have c: "c_string ?s = ?s" by (rule c_string_id)
  have "peek ?s \<noteq> CHR '' ''"
  proof (cases a)
    case Nil
    with assms(7) obtain m where "n = Suc m" by (cases n) auto
    with Nil show ?thesis by simp
  next
    case (Cons x xs)
    with assms(1) show ?thesis by auto
  qed
  then have d: "drop_leading_spaces ?s = ?s" by (rule drop_leading_spaces_id)
  have "\<not> twice (CHR '' '') ?s"
    using assms(1,5) D by (simp add: twice_append_clean)
  then have q: "squeeze_spaces ?s = ?s" by (rule squeeze_spaces_id)
  have "replace_dollars p ?s = a @ concat (replicate n p) @ replace_dollars p b"
    using assms(2) by (simp add: replace_dollars_prefix replace_dollars_replicate)
  also from assms(6) have "replace_dollars p b = b" by (rule replace_dollars_id)
  finally show ?thesis by (simp add: expand_loop_spec c d q)
qed

lemma truncate_right_newline:
  assumes "x \<noteq> []" and "last x \<noteq> CHR '' ''" and "last x \<noteq> CHR 0x0A"
  shows "truncate_right (x @ [CHR 0x0A]) (length (x @ [CHR 0x0A])) = length x"
proof -
  let ?s = "x @ [CHR 0x0A]"
  from assms(1) have "?s ! (length x - 1) = last x"
    by (simp add: nth_append last_conv_nth)
  with assms have "truncate_right ?s (length x) = length x"
    by (intro truncate_right_id) auto
  then show ?thesis by simp
qed

lemma ends_with_background_operator_append:
  assumes "x \<noteq> []" and "hd x \<noteq> CHR '' ''"
  shows "ends_with_background_operator (x @ '' &'')"
proof -
  from assms have "hd x \<in> set x" by simp
  with assms(2) have "\<exists>c \<in> set x. c \<noteq> CHR '' ''" by blast
  then show ?thesis
    by (simp add: ends_with_background_operator_def Let_def nth_append)
qed

lemma sprintf_d_4242: "sprintf_d 4242 = ''4242''"
  by code_simp

lemma length_concat_replicate: "length (concat (replicate n w)) = n * length w"
  by (induction n) simp_all


lemma command_eq:
  "argv d = a \<Longrightarrow> background d = b \<Longrightarrow> i_stream d = i \<Longrightarrow> o_stream d = out \<Longrightarrow>
   d = \<lparr>argv = a, background = b, i_stream = i, o_stream = out\<rparr>"
  by (cases d) simp

text \<open>
  On the lines that fit: no descriptor exactly for the blank lines and the comments, and
  the background request exactly for the lines that end with the background operator.
\<close>

lemma parse_command_none_iff:
  assumes "fits pid s"
  shows "parse_command pid s = Inr None \<longleftrightarrow>
           trimmed_line pid s = [] \<or> hd (trimmed_line pid s) = CHR ''#''"
    and "\<not> (trimmed_line pid s = [] \<or> hd (trimmed_line pid s) = CHR ''#'') \<longrightarrow>
           (\<exists>d. parse_command pid s = Inr (Some d) \<and> argv d \<noteq> [] \<and>
                (\<forall>a \<in> set (argv d). a \<noteq> []))"
proof -
  show "\<not> (trimmed_line pid s = [] \<or> hd (trimmed_line pid s) = CHR ''#'') \<longrightarrow>
           (\<exists>d. parse_command pid s = Inr (Some d) \<and> argv d \<noteq> [] \<and>
                (\<forall>a \<in> set (argv d). a \<noteq> []))"
    using parse_command_descriptor [OF assms] by blast
  then show "parse_command pid s = Inr None \<longleftrightarrow>
           trimmed_line pid s = [] \<or> hd (trimmed_line pid s) = CHR ''#''"
    using parse_command_blank [OF assms] by auto
qed

lemma parse_command_background:
  assumes "fits pid s" and "trimmed_line pid s \<noteq> []" and "hd (trimmed_line pid s) \<noteq> CHR ''#''"
  shows "\<exists>d. parse_command pid s = Inr (Some d)
     \<and> (background d \<longleftrightarrow> ends_with_background_operator (trimmed_line pid s))
     \<and> (if ends_with_background_operator (trimmed_line pid s)
         then trimmed_line pid s =
                take (length (trimmed_line pid s) - 2) (trimmed_line pid s) @ '' &''
              \<and> parse_operands (take (length (trimmed_line pid s) - 2) (trimmed_line pid s))
                   (create_command_struct\<lparr>background := True\<rparr>) = Inr d
         else parse_operands (trimmed_line pid s) create_command_struct = Inr d)"
proof -
  let ?t = "trimmed_line pid s"
  note pc = parse_command_trimmed [OF assms(1)]
  from assms have hd: "hd ?t \<noteq> CHR '' ''" using trimmed_line_head [of pid s] by auto
  note iff = background_requested_iff [OF assms(2) hd]
  show ?thesis
  proof (cases "ends_with_background_operator ?t")
    case True
    then have n: "length ?t - 1 > 1" using iff by (simp add: background_requested_def Let_def)
    then have "take (length ?t - 2) ?t \<noteq> []" by auto
    moreover from this have "hd (take (length ?t - 2) ?t) \<noteq> CHR '' ''"
      using hd by (cases ?t) auto
    ultimately obtain d where d:
      "parse_operands (take (length ?t - 2) ?t)
         (create_command_struct\<lparr>background := True\<rparr>) = Inr d"
      "background d = background (create_command_struct\<lparr>background := True\<rparr>)"
      using parse_operands_ok by blast
    define k where "k = length ?t - 2"
    from n have k: "Suc (Suc k) = length ?t" by (simp add: k_def)
    then have "drop k ?t = ?t ! k # drop (Suc k) ?t"
      by (intro Cons_nth_drop_Suc [symmetric]) simp
    also from k have "drop (Suc k) ?t = ?t ! Suc k # drop (Suc (Suc k)) ?t"
      by (intro Cons_nth_drop_Suc [symmetric]) simp
    finally have "drop k ?t = [?t ! k, ?t ! Suc k]" using k by simp
    moreover from k have "Suc k = length ?t - 1" by simp
    ultimately have "drop (length ?t - 2) ?t = '' &''"
      using True by (simp add: ends_with_background_operator_def Let_def k_def)
    then have "?t = take (length ?t - 2) ?t @ '' &''"
      using append_take_drop_id [of "length ?t - 2" ?t] by simp
    with d True iff assms(2,3) show ?thesis
      by (simp add: pc)
  next
    case False
    from assms(2) hd obtain d where d:
      "parse_operands ?t create_command_struct = Inr d"
      "background d = background create_command_struct"
      using parse_operands_ok by blast
    with False iff assms(2,3) show ?thesis
      by (simp add: pc create_command_struct_def)
  qed
qed

lemma concat_replicate_Nil: "concat (replicate n w) = [] \<longleftrightarrow> n = 0 \<or> w = []"
  by (induction n) auto

lemma last_concat_replicate: "0 < n \<Longrightarrow> w \<noteq> [] \<Longrightarrow> last (concat (replicate n w)) = last w"
proof (induction n)
  case 0
  then show ?case by simp
next
  case (Suc n)
  then show ?case by (cases "n = 0") (simp_all add: concat_replicate_Nil)
qed

lemma hd_concat_replicate: "0 < n \<Longrightarrow> w \<noteq> [] \<Longrightarrow> hd (concat (replicate n w)) = hd w"
  by (cases n) auto

lemma trimmed_line_newline:
  assumes "expand pid s = x @ [CHR 0x0A]" and "x \<noteq> []"
    and "last x \<noteq> CHR '' ''" and "last x \<noteq> CHR 0x0A"
  shows "trimmed_line pid s = x"
  using truncate_right_newline [OF assms(2,3,4)]
  by (simp add: trimmed_line_def assms(1))

section \<open>The claims\<close>

subsection \<open>C5: the expansion pass\<close>

text \<open>
  C5. For every input string and process id, the expansion pass yields the input's text
  with its leading spaces dropped, every run of spaces collapsed to one space, and every
  \<open>$$\<close> (left to right, without overlap) replaced by the decimal numeral of the process
  id, a lone \<open>$\<close> being copied as it is. For a process id that is not negative the numeral
  consists of decimal digits, denotes the process id, and starts with \<open>0\<close> only if the
  process id is 0. The pass is idempotent: applied to its own output it returns that
  output.
\<close>

theorem expand_replaces_squeezes_and_is_idempotent:
  "expand pid s =
     replace_dollars (sprintf_d pid) (squeeze_spaces (drop_leading_spaces (c_string s)))
   \<and> (0 \<le> pid \<longrightarrow>
        (\<forall>c \<in> set (sprintf_d pid). is_digit c)
        \<and> int (numeral_value (sprintf_d pid)) = pid
        \<and> (hd (sprintf_d pid) = CHR ''0'' \<longrightarrow> pid = 0))
   \<and> expand pid (expand pid s) = expand pid s"
proof (intro conjI impI)
  show "expand pid s =
     replace_dollars (sprintf_d pid) (squeeze_spaces (drop_leading_spaces (c_string s)))"
    unfolding expand_def by (rule expand_loop_spec)
  show "expand pid (expand pid s) = expand pid s"
    unfolding expand_def by (rule expand_loop_idem) (rule clean_sprintf_d)
next
  assume nonneg: "0 \<le> pid"
  then have str: "sprintf_d pid = decimal (nat pid)" by (simp add: sprintf_d_def)
  show "\<forall>c \<in> set (sprintf_d pid). is_digit c"
    unfolding str by (rule decimal_digits)
  show "int (numeral_value (sprintf_d pid)) = pid"
    unfolding str using nonneg by (simp add: numeral_value_decimal)
  assume "hd (sprintf_d pid) = CHR ''0''"
  then have "nat pid = 0" unfolding str by (rule decimal_leading_zero)
  with nonneg show "pid = 0" by simp
qed

theorem expand_replaces_squeezes_and_is_idempotent_witness:
  "(0::int) \<le> 0 \<and> hd (sprintf_d 0) = CHR ''0''
   \<and> expand 0 ''  echo  $$ $ $$$   x'' = ''echo 0 $ 0$ x''
   \<and> expand 0 ''echo 0 $ 0$ x'' = ''echo 0 $ 0$ x''"
proof -
  have str: "sprintf_d 0 = ''0''" by code_simp
  have run: "expand 0 ''  echo  $$ $ $$$   x'' = ''echo 0 $ 0$ x''" by code_simp
  from expand_replaces_squeezes_and_is_idempotent [of 0 "''  echo  $$ $ $$$   x''"]
  have "expand 0 (expand 0 ''  echo  $$ $ $$$   x'') = expand 0 ''  echo  $$ $ $$$   x''"
    by blast
  with run str show ?thesis by simp
qed


subsection \<open>C2: the cap on the number of arguments\<close>

text \<open>
  C2. \<^verbatim>\<open>config.h\<close> sizes \<open>argv\<close> for one command, 512 arguments and the null pointer: for
  513 strings. The do-while loop of \<^verbatim>\<open>parse_args\<close> stores a token and only then tests
  \<open>i < MAX_ARGV_SIZE\<close>, with \<open>MAX_ARGV_SIZE = 514\<close>. The line of 514 words \<open>a\<close>, which has
  1027 bytes, gives an \<open>argv\<close> of 514 strings: one more than the array is sized for, and
  two more than the cap of 512 tokens.
\<close>

theorem argv_of_514_words_has_514_strings:
  "length (join_words (replicate 514 ''a'')) = 1027
   \<and> parse_command 7 (join_words (replicate 514 ''a'')) =
       Inr (Some \<lparr>argv = replicate 514 ''a'', background = False, i_stream = None,
                  o_stream = None\<rparr>)
   \<and> length (replicate 514 ''a'') = 514"
proof -
  let ?ws = "replicate 514 ''a''"
  have j: "join_words ?ws = concat (replicate 513 ''a '') @ ''a''"
    using join_words_replicate [of 513 "''a''"] by simp
  then have n: "length (join_words ?ws) = 1027" by (simp add: length_concat_replicate)
  have cl: "command_line ?ws [] False = join_words ?ws" by (simp add: command_line_def)
  have wf: "well_formed ?ws [] False"
    by (simp add: well_formed_def token_def operator_token_def line_tokens_def)
  have "\<exists>d. parse_command 7 (command_line ?ws [] False) = Inr (Some d) \<and>
             argv d = take MAX_ARGV_SIZE ?ws \<and> background d = False \<and>
             map_option chars (i_stream d) = last_redirect True [] \<and>
             map_option chars (o_stream d) = last_redirect False []"
    using wf by (rule parse_command_command_line)
      (simp_all add: solid_a cl n MAX_INPUT_CHARS_SIZE_def)
  then obtain d where d: "parse_command 7 (join_words ?ws) = Inr (Some d)"
    and "argv d = ?ws" "background d = False" "i_stream d = None" "o_stream d = None"
    by (auto simp: cl MAX_ARGV_SIZE_def last_redirect_def)
  then have "d = \<lparr>argv = ?ws, background = False, i_stream = None, o_stream = None\<rparr>"
    by (intro command_eq)
  with d n show ?thesis by simp
qed

subsection \<open>C3: when a descriptor is returned\<close>

text \<open>
  C3. A comment of 2048 bytes, \<open>#\<close> followed by 1023 times \<open>$$\<close> and the newline, in the
  shell with the process id 4242: expanded and trimmed, the line starts with \<open>#\<close>, and no
  descriptor (NULL) is to be returned. The expansion has 4094 bytes, and \<^verbatim>\<open>expand\<close> writes
  it into \<^verbatim>\<open>command_string\<close>, an array of 2050 bytes, past its end: the result is the
  fault. The line of 1024 times \<open>$$\<close>, which is neither blank nor a comment, overruns the
  array in the same way, where a descriptor is to be returned. (Lemma
  \<open>parse_command_none_iff\<close> has the two directions for the lines that fit.)
\<close>

theorem comment_line_overruns_the_buffer:
  "length (CHR ''#'' # concat (replicate 1023 ''$$'') @ [CHR 0x0A]) = 2048
   \<and> hd (trimmed_line 4242 (CHR ''#'' # concat (replicate 1023 ''$$'') @ [CHR 0x0A])) = CHR ''#''
   \<and> length (expand 4242 (CHR ''#'' # concat (replicate 1023 ''$$'') @ [CHR 0x0A])) = 4094
   \<and> parse_command 4242 (CHR ''#'' # concat (replicate 1023 ''$$'') @ [CHR 0x0A]) =
       Inl Buffer_overflow
   \<and> length (concat (replicate 1024 ''$$'') @ [CHR 0x0A]) = 2049
   \<and> trimmed_line 4242 (concat (replicate 1024 ''$$'') @ [CHR 0x0A]) =
       concat (replicate 1024 ''4242'')
   \<and> length (expand 4242 (concat (replicate 1024 ''$$'') @ [CHR 0x0A])) = 4097
   \<and> parse_command 4242 (concat (replicate 1024 ''$$'') @ [CHR 0x0A]) = Inl Buffer_overflow"
proof -
  let ?c = "CHR ''#'' # concat (replicate 1023 ''$$'') @ [CHR 0x0A]"
  let ?l = "concat (replicate 1024 ''$$'') @ [CHR 0x0A]"
  let ?x = "CHR ''#'' # concat (replicate 1023 ''4242'')"
  let ?y = "concat (replicate 1024 ''4242'')"
  have ec: "expand 4242 ?c = ?x @ [CHR 0x0A]"
    using expand_dollars [of "''#''" "[CHR 0x0A]" 1023 "''4242''"]
    by (simp add: expand_def sprintf_d_4242)
  have el: "expand 4242 ?l = ?y @ [CHR 0x0A]"
    using expand_dollars [of "[]" "[CHR 0x0A]" 1024 "''4242''"]
    by (simp add: expand_def sprintf_d_4242)
  have lx: "last ?x = CHR ''2''"
    using last_concat_replicate [of 1023 "''4242''"] by (simp add: concat_replicate_Nil)
  have ly: "last ?y = CHR ''2''" "?y \<noteq> []"
    using last_concat_replicate [of 1024 "''4242''"] by (simp_all add: concat_replicate_Nil)
  have tc: "trimmed_line 4242 ?c = ?x"
    using ec lx by (intro trimmed_line_newline) simp_all
  have tl: "trimmed_line 4242 ?l = ?y"
    using el ly by (intro trimmed_line_newline) simp_all
  have nc: "length (expand 4242 ?c) = 4094" unfolding ec by (simp add: length_concat_replicate)
  have nl: "length (expand 4242 ?l) = 4097" unfolding el by (simp add: length_concat_replicate)
  from nc have pc: "parse_command 4242 ?c = Inl Buffer_overflow"
    by (intro parse_command_overflow) (simp add: fits_def MAX_INPUT_CHARS_SIZE_def)
  from nl have pl: "parse_command 4242 ?l = Inl Buffer_overflow"
    by (intro parse_command_overflow) (simp add: fits_def MAX_INPUT_CHARS_SIZE_def)
  have "length ?c = 2048" "length ?l = 2049" by (simp_all add: length_concat_replicate)
  with tc tl nc nl pc pl show ?thesis by simp
qed

subsection \<open>C4: the background operator\<close>

text \<open>
  C4. The line of 1023 times \<open>$$\<close> followed by \<open>" &"\<close> and the newline has 2049 bytes, the
  most that \<^verbatim>\<open>fgets\<close> stores. In the shell with the process id 4242 it is neither blank
  nor a comment, and expanded and trimmed it ends with the background operator: the
  descriptor is to have \<open>background = true\<close>. The expansion has 4095 bytes and overruns
  \<^verbatim>\<open>command_string\<close> before the operator is looked for: the result is the fault, and no
  descriptor. (Lemma \<open>parse_command_background\<close> has the equivalence for the lines that
  fit.)
\<close>

theorem background_line_overruns_the_buffer:
  "length (concat (replicate 1023 ''$$'') @ '' &'' @ [CHR 0x0A]) = 2049
   \<and> trimmed_line 4242 (concat (replicate 1023 ''$$'') @ '' &'' @ [CHR 0x0A]) =
       concat (replicate 1023 ''4242'') @ '' &''
   \<and> ends_with_background_operator
       (trimmed_line 4242 (concat (replicate 1023 ''$$'') @ '' &'' @ [CHR 0x0A]))
   \<and> hd (trimmed_line 4242 (concat (replicate 1023 ''$$'') @ '' &'' @ [CHR 0x0A])) = CHR ''4''
   \<and> length (expand 4242 (concat (replicate 1023 ''$$'') @ '' &'' @ [CHR 0x0A])) = 4095
   \<and> parse_command 4242 (concat (replicate 1023 ''$$'') @ '' &'' @ [CHR 0x0A]) =
       Inl Buffer_overflow"
proof -
  let ?l = "concat (replicate 1023 ''$$'') @ '' &'' @ [CHR 0x0A]"
  let ?y = "concat (replicate 1023 ''4242'')"
  have e: "expand 4242 ?l = (?y @ '' &'') @ [CHR 0x0A]"
    using expand_dollars [of "[]" "'' &'' @ [CHR 0x0A]" 1023 "''4242''"]
    by (simp add: expand_def sprintf_d_4242)
  have y: "?y \<noteq> []" "hd ?y = CHR ''4''"
    using hd_concat_replicate [of 1023 "''4242''"] by (simp_all add: concat_replicate_Nil)
  have t: "trimmed_line 4242 ?l = ?y @ '' &''"
    using e by (intro trimmed_line_newline) simp_all
  from y have b: "ends_with_background_operator (?y @ '' &'')"
    by (intro ends_with_background_operator_append) simp_all
  have n: "length (expand 4242 ?l) = 4095" unfolding e by (simp add: length_concat_replicate)
  then have p: "parse_command 4242 ?l = Inl Buffer_overflow"
    by (intro parse_command_overflow) (simp add: fits_def MAX_INPUT_CHARS_SIZE_def)
  have "length ?l = 2049" by (simp add: length_concat_replicate)
  with t b y n p show ?thesis by simp
qed

subsection \<open>C6: the last redirection wins\<close>




subsection \<open>C7: background launches and foreground-only mode\<close>

text \<open>
  C7. A dispatched descriptor whose command is not a built-in, with both streams opened
  and the process created, adds one child to the interpreter's children, and that child
  is launched in the background exactly if the descriptor asks for the background and the
  mode flag is not 1. In the background the notice \<^verbatim>\<open>Background PID\<close> with the child's id
  is printed and the last foreground result stays as it was. Otherwise, also when the
  request was downgraded by the mode, no such notice is printed: the child is waited for
  and the last foreground result is decoded from its termination status, an exit value or
  a signal number, the latter reported at once.
\<close>

theorem background_iff_requested_outside_foreground_only_mode:
  "argv d = name # rest \<and> name \<noteq> ''exit'' \<and> name \<noteq> ''cd'' \<and> name \<noteq> ''status''
   \<and> (\<forall>path flags. os_open sys path flags \<noteq> - 1) \<and> os_fork sys \<noteq> - 1 \<and> os_fork sys \<noteq> 0
   \<longrightarrow>
     (\<exists>input_fd output_fd.
        children (dispatch sys d st) =
          children st @
          [\<lparr>launched_pid = os_fork sys, launched_argv = argv d, launched_stdin = input_fd,
            launched_stdout = output_fd,
            launched_in_background = (background d \<and> foreground_flag st \<noteq> 1)\<rparr>])
     \<and> (background d \<and> foreground_flag st \<noteq> 1 \<longrightarrow>
          stdout (dispatch sys d st) =
            stdout st @ ''Background PID '' @ sprintf_d (os_fork sys) @ [CHR 0x0A]
          \<and> exit_status (dispatch sys d st) = exit_status st
          \<and> by_signal (dispatch sys d st) = by_signal st)
     \<and> (\<not> (background d \<and> foreground_flag st \<noteq> 1) \<longrightarrow>
          by_signal (dispatch sys d st) = (\<not> WIFEXITED (os_waitpid sys))
          \<and> exit_status (dispatch sys d st) =
              (if WIFEXITED (os_waitpid sys) then WEXITSTATUS (os_waitpid sys)
               else WTERMSIG (os_waitpid sys))
          \<and> stdout (dispatch sys d st) =
              stdout st @
              (if WIFEXITED (os_waitpid sys) then []
               else CHR 0x0A # ''Last foreground process status: terminated by signal '' @
                    sprintf_d (WTERMSIG (os_waitpid sys)) @ [CHR 0x0A]))"
proof (intro impI)
  assume a: "argv d = name # rest \<and> name \<noteq> ''exit'' \<and> name \<noteq> ''cd'' \<and> name \<noteq> ''status''
   \<and> (\<forall>path flags. os_open sys path flags \<noteq> - 1) \<and> os_fork sys \<noteq> - 1 \<and> os_fork sys \<noteq> 0"
  define bg where "bg = (background d \<and> foreground_flag st \<noteq> 1)"
  obtain ifd st1 where oi: "open_input sys (map_option chars (i_stream d)) bg st = (ifd, st1)"
    by (cases "open_input sys (map_option chars (i_stream d)) bg st")
  obtain ofd st2 where oo: "open_output sys (map_option chars (o_stream d)) bg st1 = (ofd, st2)"
    by (cases "open_output sys (map_option chars (o_stream d)) bg st1")
  from a oi have i1: "ifd \<noteq> - 1" "stdout st1 = stdout st" "children st1 = children st"
    "exit_status st1 = exit_status st" "by_signal st1 = by_signal st"
    by (auto simp: open_input_def sys_open_def STDIN_FILENO_def Let_def
          split: option.splits if_splits)
  from a oo have i2: "ofd \<noteq> - 1" "stdout st2 = stdout st1" "children st2 = children st1"
    "exit_status st2 = exit_status st1" "by_signal st2 = by_signal st1"
    by (auto simp: open_output_def sys_open_def STDOUT_FILENO_def Let_def
          split: option.splits if_splits)
  from a have "dispatch sys d st =
      run_command sys (argv d) (map_option chars (i_stream d))
        (map_option chars (o_stream d)) bg st"
    by (simp add: dispatch_def bg_def get_foreground_flag_def)
  also from a i1(1) i2(1) have "\<dots> = parent_branch sys (os_fork sys) (argv d) ifd ofd bg st2"
    by (simp add: run_command_def oi oo Let_def)
  finally have eq: "dispatch sys d st =
      parent_branch sys (os_fork sys) (argv d) ifd ofd bg st2" .
  show "(\<exists>input_fd output_fd.
        children (dispatch sys d st) =
          children st @
          [\<lparr>launched_pid = os_fork sys, launched_argv = argv d, launched_stdin = input_fd,
            launched_stdout = output_fd,
            launched_in_background = (background d \<and> foreground_flag st \<noteq> 1)\<rparr>])
     \<and> (background d \<and> foreground_flag st \<noteq> 1 \<longrightarrow>
          stdout (dispatch sys d st) =
            stdout st @ ''Background PID '' @ sprintf_d (os_fork sys) @ [CHR 0x0A]
          \<and> exit_status (dispatch sys d st) = exit_status st
          \<and> by_signal (dispatch sys d st) = by_signal st)
     \<and> (\<not> (background d \<and> foreground_flag st \<noteq> 1) \<longrightarrow>
          by_signal (dispatch sys d st) = (\<not> WIFEXITED (os_waitpid sys))
          \<and> exit_status (dispatch sys d st) =
              (if WIFEXITED (os_waitpid sys) then WEXITSTATUS (os_waitpid sys)
               else WTERMSIG (os_waitpid sys))
          \<and> stdout (dispatch sys d st) =
              stdout st @
              (if WIFEXITED (os_waitpid sys) then []
               else CHR 0x0A # ''Last foreground process status: terminated by signal '' @
                    sprintf_d (WTERMSIG (os_waitpid sys)) @ [CHR 0x0A]))"
    unfolding eq bg_def [symmetric]
    using i1 i2
    by (simp add: parent_branch_def Let_def put_def builtin_status_def)
qed


theorem background_iff_requested_outside_foreground_only_mode_witness:
  "foreground_flag (deliver SIGTSTP (setup_shell (initial_shell [] []))) = 1
   \<and> parse_command 4242 ''sleep 5 &'' =
       Inr (Some \<lparr>argv = [''sleep'', ''5''], background = True, i_stream = None,
                  o_stream = None\<rparr>)
   \<and> children (dispatch sample_os
        \<lparr>argv = [''sleep'', ''5''], background = True, i_stream = None, o_stream = None\<rparr>
        (deliver SIGTSTP (setup_shell (initial_shell [] [])))) =
       [\<lparr>launched_pid = 77, launched_argv = [''sleep'', ''5''], launched_stdin = 0,
         launched_stdout = 1, launched_in_background = False\<rparr>]
   \<and> stdout (dispatch sample_os
        \<lparr>argv = [''sleep'', ''5''], background = True, i_stream = None, o_stream = None\<rparr>
        (deliver SIGTSTP (setup_shell (initial_shell [] [])))) =
       stdout (deliver SIGTSTP (setup_shell (initial_shell [] [])))
   \<and> stdout (dispatch sample_os
        \<lparr>argv = [''sleep'', ''5''], background = True, i_stream = None, o_stream = None\<rparr>
        (setup_shell (initial_shell [] []))) = ''Background PID 77'' @ [CHR 0x0A]"
proof -
  define st0 where "st0 = setup_shell (initial_shell [] [])"
  define st1 where "st1 = deliver SIGTSTP st0"
  define d where
    "d = \<lparr>argv = [''sleep'', ''5''], background = True, i_stream = None, o_stream = None\<rparr>"
  have p: "parse_command 4242 ''sleep 5 &'' = Inr (Some d)" unfolding d_def by code_simp
  have f0: "foreground_flag st0 = 0" "stdout st0 = []"
    by (simp_all add: st0_def setup_shell_def setsid_def set_initial_signal_handlers_def
          set_SIGTSTP_handler_def initial_shell_def Let_def)
  have "interpreter st0" unfolding st0_def by (rule interpreter_setup)
  then have f1: "foreground_flag st1 = 1" unfolding st1_def using f0 deliver_SIGTSTP(1) by simp
  have hyp: "argv d = ''sleep'' # [''5''] \<and> ''sleep'' \<noteq> ''exit'' \<and> ''sleep'' \<noteq> ''cd''
      \<and> ''sleep'' \<noteq> ''status'' \<and> (\<forall>path flags. os_open sample_os path flags \<noteq> - 1)
      \<and> os_fork sample_os \<noteq> - 1 \<and> os_fork sample_os \<noteq> 0"
    by (simp add: d_def sample_os_def)
  have w: "WIFEXITED (os_waitpid sample_os)" "sprintf_d (os_fork sample_os) = ''77''"
    by (simp_all add: sample_os_def WIFEXITED_def WTERMSIG_def sprintf_d_def decimal.simps
          digit_char_def)
  from background_iff_requested_outside_foreground_only_mode
         [of d "''sleep''" "[''5'']" sample_os st1] hyp f1 w
  have a: "stdout (dispatch sample_os d st1) = stdout st1" by (simp add: d_def)
  from background_iff_requested_outside_foreground_only_mode
         [of d "''sleep''" "[''5'']" sample_os st0] hyp f0 w
  have b: "stdout (dispatch sample_os d st0) = ''Background PID 77'' @ [CHR 0x0A]"
    by (simp add: d_def)
  have c: "children (dispatch sample_os d st1) =
       [\<lparr>launched_pid = 77, launched_argv = [''sleep'', ''5''], launched_stdin = 0,
         launched_stdout = 1, launched_in_background = False\<rparr>]"
    unfolding d_def st1_def st0_def by code_simp
  from f1 p a b c show ?thesis unfolding d_def st1_def st0_def by simp
qed
subsection \<open>C8: the job-control mode flag\<close>

text \<open>
  C8. The flag is 0 (Normal) when the program starts, and after \<^verbatim>\<open>setup\<close> the interpreter's
  invariant holds. Whenever it holds, the delivery of \<^verbatim>\<open>SIGTSTP\<close> changes the flag to the
  other of its two values, appends exactly one notice to the standard output, the one for
  entering when the flag was 0 and the one for leaving when it was 1, and keeps the
  invariant, so that the next delivery flips the flag back. No other step of the process
  (the delivery of another signal, the termination of a child, a round of the control
  loop, \<^verbatim>\<open>builtin_exit\<close>) changes the flag, and each keeps the invariant as long as the
  process runs.
\<close>

theorem toggle_flips_flag_and_prints_one_notice:
  "foreground_flag (initial_shell dir buf) = 0
   \<and> interpreter (setup_shell (initial_shell dir buf))
   \<and> (interpreter st \<longrightarrow>
        foreground_flag (deliver SIGTSTP st) = 1 - foreground_flag st
        \<and> stdout (deliver SIGTSTP st) =
            stdout st @
            (if foreground_flag st = 0
             then CHR 0x0A # ''Entering foreground-only mode (& is now ignored)'' @
                  CHR 0x0A # '': ''
             else CHR 0x0A # ''Exiting foreground-only mode'' @ CHR 0x0A # '': '')
        \<and> interpreter (deliver SIGTSTP st))
   \<and> (interpreter st \<and> step \<noteq> Deliver SIGTSTP \<longrightarrow>
        foreground_flag (perform step st) = foreground_flag st
        \<and> (halted (perform step st) = None \<longrightarrow> interpreter (perform step st)))"
proof (intro conjI impI)
  show "foreground_flag (initial_shell dir buf) = 0" by (simp add: initial_shell_def)
  show "interpreter (setup_shell (initial_shell dir buf))" by (rule interpreter_setup)
next
  assume i: "interpreter st"
  show "foreground_flag (deliver SIGTSTP st) = 1 - foreground_flag st"
    using i by (rule deliver_SIGTSTP)
  show "stdout (deliver SIGTSTP st) =
            stdout st @
            (if foreground_flag st = 0
             then CHR 0x0A # ''Entering foreground-only mode (& is now ignored)'' @
                  CHR 0x0A # '': ''
             else CHR 0x0A # ''Exiting foreground-only mode'' @ CHR 0x0A # '': '')"
    using deliver_SIGTSTP(2) [OF i] by (simp add: enter_message_def exit_message_def)
  show "interpreter (deliver SIGTSTP st)" using i by (rule deliver_SIGTSTP)
next
  assume a: "interpreter st \<and> step \<noteq> Deliver SIGTSTP"
  then show "foreground_flag (perform step st) = foreground_flag st"
    using perform_other [of st step] by simp
  assume "halted (perform step st) = None"
  with a show "interpreter (perform step st)" using perform_other [of st step] by simp
qed

theorem toggle_flips_flag_and_prints_one_notice_witness:
  "interpreter (setup_shell (initial_shell [] []))
   \<and> foreground_flag (deliver SIGTSTP (setup_shell (initial_shell [] []))) = 1
   \<and> stdout (deliver SIGTSTP (setup_shell (initial_shell [] []))) =
       CHR 0x0A # ''Entering foreground-only mode (& is now ignored)'' @ CHR 0x0A # '': ''
   \<and> foreground_flag (deliver SIGTSTP (deliver SIGTSTP (setup_shell (initial_shell [] [])))) = 0
   \<and> Deliver SIGINT \<noteq> Deliver SIGTSTP
   \<and> foreground_flag (perform (Deliver SIGINT) (deliver SIGTSTP (setup_shell (initial_shell [] []))))
       = 1"
proof -
  define st0 where "st0 = setup_shell (initial_shell [] [])"
  note t0 = toggle_flips_flag_and_prints_one_notice [of "[]" "[]" st0 "Deliver SIGINT"]
  have f0: "foreground_flag st0 = 0" "stdout st0 = []"
    by (simp_all add: st0_def setup_shell_def setsid_def set_initial_signal_handlers_def
          set_SIGTSTP_handler_def initial_shell_def Let_def)
  from t0 have i0: "interpreter st0" by (simp add: st0_def)
  with t0 f0 have s1: "foreground_flag (deliver SIGTSTP st0) = 1"
    "stdout (deliver SIGTSTP st0) =
       CHR 0x0A # ''Entering foreground-only mode (& is now ignored)'' @ CHR 0x0A # '': ''"
    "interpreter (deliver SIGTSTP st0)" by simp_all
  note t1 = toggle_flips_flag_and_prints_one_notice [of "[]" "[]" "deliver SIGTSTP st0"
      "Deliver SIGINT"]
  from t1 s1 have "foreground_flag (deliver SIGTSTP (deliver SIGTSTP st0)) = 0"
    "foreground_flag (perform (Deliver SIGINT) (deliver SIGTSTP st0)) = 1" by simp_all
  with i0 s1 show ?thesis unfolding st0_def by simp
qed

subsection \<open>C9: the exit built-in\<close>

text \<open>
  C9. When \<^verbatim>\<open>builtin_exit\<close> runs in a running interpreter, it registers the cleanup
  handlers, under which \<^verbatim>\<open>SIGTERM\<close> is ignored and \<^verbatim>\<open>SIGCHLD\<close> reaps without output, then
  broadcasts \<^verbatim>\<open>SIGTERM\<close> to its process group, which leaves the interpreter itself as it
  was, then pauses for 5000 microseconds, and then exits with status 0, in every case.
  Under the cleanup handlers the delivery of \<^verbatim>\<open>SIGCHLD\<close> reaps every terminated child
  and writes nothing.
\<close>

theorem exit_ignores_its_own_broadcast:
  "halted st = None \<longrightarrow>
     builtin_exit st =
       exit_process 0 (usleep 5000 (kill_group SIGTERM (set_cleanup_signal_handlers st)))
     \<and> kill_group SIGTERM (set_cleanup_signal_handlers st) =
         (set_cleanup_signal_handlers st)\<lparr>calls := calls st @ [Kill_group SIGTERM]\<rparr>
     \<and> sigaction (set_cleanup_signal_handlers st) SIGTERM = SIG_IGN
     \<and> sigaction (set_cleanup_signal_handlers st) SIGCHLD = SIGCHLD_handler_no_output
     \<and> halted (builtin_exit st) = Some (Exited 0)
     \<and> calls (builtin_exit st) = calls st @ [Kill_group SIGTERM, Usleep 5000]
     \<and> (\<not> sigchld_blocked st \<and> (\<forall>z \<in> set (zombies st). 0 < fst z) \<longrightarrow>
          zombies (deliver SIGCHLD (set_cleanup_signal_handlers st)) = []
          \<and> stdout (deliver SIGCHLD (set_cleanup_signal_handlers st)) = stdout st)"
proof (intro impI conjI)
  assume r: "halted st = None"
  note be = builtin_exit_running [OF r]
  show "builtin_exit st =
       exit_process 0 (usleep 5000 (kill_group SIGTERM (set_cleanup_signal_handlers st)))"
    by (rule be)
  show "kill_group SIGTERM (set_cleanup_signal_handlers st) =
         (set_cleanup_signal_handlers st)\<lparr>calls := calls st @ [Kill_group SIGTERM]\<rparr>"
    by (rule be)
  show "sigaction (set_cleanup_signal_handlers st) SIGTERM = SIG_IGN"
    and "sigaction (set_cleanup_signal_handlers st) SIGCHLD = SIGCHLD_handler_no_output"
    by (simp_all add: set_cleanup_signal_handlers_def)
  show "halted (builtin_exit st) = Some (Exited 0)"
    unfolding be by (simp add: exit_process_def)
  show "calls (builtin_exit st) = calls st @ [Kill_group SIGTERM, Usleep 5000]"
    unfolding be by (simp add: exit_process_def usleep_def)
  assume z: "\<not> sigchld_blocked st \<and> (\<forall>z \<in> set (zombies st). 0 < fst z)"
  have d: "deliver SIGCHLD (set_cleanup_signal_handlers st) =
        reap False (zombies st) (set_cleanup_signal_handlers st)"
    using r z
    by (simp add: deliver_def run_handler_def set_cleanup_signal_handlers_def
          SIGCHLD_handler_no_output_body_def)
  from z show "zombies (deliver SIGCHLD (set_cleanup_signal_handlers st)) = []"
    unfolding d by (intro reap_all) simp
  show "stdout (deliver SIGCHLD (set_cleanup_signal_handlers st)) = stdout st"
    unfolding d by (simp add: reap_no_output set_cleanup_signal_handlers_def)
qed

theorem exit_ignores_its_own_broadcast_witness:
  "halted (setup_shell (initial_shell [] [])) = None
   \<and> halted (builtin_exit (setup_shell (initial_shell [] []))) = Some (Exited 0)
   \<and> calls (builtin_exit (setup_shell (initial_shell [] []))) =
       [Setsid, Kill_group SIGTERM, Usleep 5000]
   \<and> \<not> sigchld_blocked ((setup_shell (initial_shell [] []))\<lparr>zombies := [(41, 0), (42, 9)]\<rparr>)
   \<and> zombies (deliver SIGCHLD (set_cleanup_signal_handlers
        ((setup_shell (initial_shell [] []))\<lparr>zombies := [(41, 0), (42, 9)]\<rparr>))) = []
   \<and> stdout (deliver SIGCHLD (set_cleanup_signal_handlers
        ((setup_shell (initial_shell [] []))\<lparr>zombies := [(41, 0), (42, 9)]\<rparr>))) = []"
proof -
  define st0 where "st0 = setup_shell (initial_shell [] [])"
  have f: "halted st0 = None" "calls st0 = [Setsid]" "\<not> sigchld_blocked st0" "stdout st0 = []"
    by (simp_all add: st0_def setup_shell_def setsid_def set_initial_signal_handlers_def
          set_SIGTSTP_handler_def initial_shell_def Let_def)
  from exit_ignores_its_own_broadcast [of st0] f(1)
  have "halted (builtin_exit st0) = Some (Exited 0)"
    "calls (builtin_exit st0) = calls st0 @ [Kill_group SIGTERM, Usleep 5000]" by blast+
  then have a: "halted (builtin_exit st0) = Some (Exited 0)"
    "calls (builtin_exit st0) = [Setsid, Kill_group SIGTERM, Usleep 5000]"
    by (simp_all add: f)
  let ?st1 = "st0\<lparr>zombies := [(41, 0), (42, 9)]\<rparr>"
  have h: "halted ?st1 = None"
    "\<not> sigchld_blocked ?st1 \<and> (\<forall>z \<in> set (zombies ?st1). 0 < fst z)"
    using f by simp_all
  from exit_ignores_its_own_broadcast [of ?st1] h
  have "zombies (deliver SIGCHLD (set_cleanup_signal_handlers ?st1)) = []"
    "stdout (deliver SIGCHLD (set_cleanup_signal_handlers ?st1)) = stdout ?st1" by blast+
  then have b: "zombies (deliver SIGCHLD (set_cleanup_signal_handlers ?st1)) = []"
    "stdout (deliver SIGCHLD (set_cleanup_signal_handlers ?st1)) = []"
    by (simp_all add: f)
  from a b f show ?thesis unfolding st0_def by simp
qed


subsection \<open>C10: the end of the input\<close>



subsection \<open>C1: a stream that cannot be opened\<close>

text \<open>
  C1. The first command, \<^verbatim>\<open>sleep 100\<close> in the foreground, is terminated by signal 2: the
  last foreground result is "terminated by signal 2". The second, \<^verbatim>\<open>cat < missing\<close>, fails
  to open its input. \<^verbatim>\<open>run_command\<close> then stores 1 in \<^verbatim>\<open>exit_status\<close> and returns, and
  \<^verbatim>\<open>by_signal\<close> keeps the value that the first command has left: the last foreground result
  is not "exit value 1", and \<^verbatim>\<open>builtin_status\<close> prints "terminated by signal 1". The branch
  after \<^verbatim>\<open>waitpid\<close> assigns both variables; the two branches for a failed \<^verbatim>\<open>open\<close> assign
  only \<^verbatim>\<open>exit_status\<close>. (Lemma \<open>run_command_open_failure\<close> has the rest of the claim: the
  exit status is 1, no child is created, and an input stream that was opened is closed.)
\<close>

theorem open_failure_keeps_terminated_by_signal:
  "by_signal (run_command (sample_os\<lparr>os_waitpid := 2\<rparr>) [''sleep'', ''100''] None None False
                (setup_shell (initial_shell [] [])))
   \<and> exit_status (run_command (sample_os\<lparr>os_waitpid := 2\<rparr>) [''sleep'', ''100''] None None
                    False (setup_shell (initial_shell [] []))) = 2
   \<and> by_signal (run_command (sample_os\<lparr>os_open := (\<lambda>path flags. - 1)\<rparr>) [''cat''] (Some ''missing'') None False
        (run_command (sample_os\<lparr>os_waitpid := 2\<rparr>) [''sleep'', ''100''] None None False
           (setup_shell (initial_shell [] []))))
   \<and> exit_status (run_command (sample_os\<lparr>os_open := (\<lambda>path flags. - 1)\<rparr>) [''cat''] (Some ''missing'') None False
        (run_command (sample_os\<lparr>os_waitpid := 2\<rparr>) [''sleep'', ''100''] None None False
           (setup_shell (initial_shell [] [])))) = 1
   \<and> stdout (builtin_status (run_command (sample_os\<lparr>os_open := (\<lambda>path flags. - 1)\<rparr>) [''cat''] (Some ''missing'') None False
        (run_command (sample_os\<lparr>os_waitpid := 2\<rparr>) [''sleep'', ''100''] None None False
           (setup_shell (initial_shell [] []))))) =
      CHR 0x0A # ''Last foreground process status: terminated by signal 2'' @ [CHR 0x0A] @
      ''Last foreground process status: terminated by signal 1'' @ [CHR 0x0A]"
  by code_simp
end
